theory Spec2Isabelle
  imports Main "HOL-Library.Option_ord"
begin

section \<open>Realtime whiteboard: synchronisation and recovery engine\<close>

text \<open>
  A shallow embedding of the server's synchronisation code (server.js: the sequence
  allocator, the \<^verbatim>\<open>board:ops\<close> handler with its transaction and checkpoint trigger,
  the persistence buffer, the membership routes, the export route) and of the
  restore tool (tools/restore.js). The database is an explicit record that every
  operation takes and returns. Identifiers (board ids, user ids, operation ids)
  are strings; the \<^verbatim>\<open>board:ops\<close> handler and \<^verbatim>\<open>room:join\<close> take the board id as
  the client sent it and cast it where the code casts it (\<open>objectId\<close>), the HTTP
  routes and the restore tool are modelled for a board id in canonical (lower-case)
  form; sequence numbers and versions are natural
  numbers; clock readings (\<^verbatim>\<open>ts\<close> of a stored record, \<^verbatim>\<open>createdAt\<close>,
  \<^verbatim>\<open>updatedAt\<close>) are not stored in the model, since no code path modelled here
  reads them. The chat list of a board belongs to the chat subsystem and is left
  out as well.
\<close>

subsection \<open>JavaScript truthiness of optional strings\<close>

text \<open>
  A field that may be absent is an option; an absent field and the empty string are
  both falsy, so \<^verbatim>\<open>x || y\<close> and \<^verbatim>\<open>!x\<close> on such a field go through \<open>nonempty\<close>.
\<close>

definition nonempty :: "string option \<Rightarrow> string option" where
  "nonempty x = (case x of None \<Rightarrow> None | Some s \<Rightarrow> if s = [] then None else Some s)"

subsection \<open>Identifiers and strings\<close>

text \<open>\<^verbatim>\<open>toLowerCase()\<close> and \<^verbatim>\<open>trim()\<close>, on ASCII.\<close>

definition lower_char :: "char \<Rightarrow> char" where
  "lower_char c =
     (case map_of (zip ''ABCDEFGHIJKLMNOPQRSTUVWXYZ'' ''abcdefghijklmnopqrstuvwxyz'') c of
        Some l \<Rightarrow> l
      | None \<Rightarrow> c)"

definition toLowerCase :: "string \<Rightarrow> string" where
  "toLowerCase s = map lower_char s"

definition is_space :: "char \<Rightarrow> bool" where
  "is_space c \<longleftrightarrow> c \<in> set [CHR '' '', CHR 0x09, CHR 0x0A, CHR 0x0B, CHR 0x0C, CHR 0x0D]"

definition trim :: "string \<Rightarrow> string" where
  "trim s = rev (dropWhile is_space (rev (dropWhile is_space s)))"

text \<open>
  The \<^verbatim>\<open>boardId\<close> field of \<^verbatim>\<open>BoardOp\<close> and \<^verbatim>\<open>BoardSnapshot\<close> and the \<^verbatim>\<open>_id\<close>
  of \<^verbatim>\<open>Board\<close> are ObjectIds: a board id given as a string is cast when it is
  stored or queried. The cast accepts the hexadecimal digits in either case and the
  id reads back in lower case, so the cast is the lower-casing of the string. A
  socket keeps the board id as the client sent it (\<^verbatim>\<open>socket.data.boardId\<close>), and
  \<open>nextBoardSeq\<close> builds the counter key from that string uncast.
\<close>

definition objectId :: "string \<Rightarrow> string" where
  "objectId s = toLowerCase s"

subsection \<open>Operations on the wire\<close>

text \<open>
  The operations a client emits are objects \<^verbatim>\<open>{ id, ts, userId, changes }\<close>
  (whiteboard.jsx); \<^verbatim>\<open>mergeOps\<close> reads only \<^verbatim>\<open>id\<close> and \<^verbatim>\<open>ts\<close>.
  Timestamps are integer clock readings.
\<close>

record client_op =
  op_id :: string
  op_ts :: int
  op_changes :: string

datatype prim = PNum int | PStr string | PBool bool

fun truthy_prim :: "prim \<Rightarrow> bool" where
  "truthy_prim (PNum n) = (n \<noteq> 0)"
| "truthy_prim (PStr s) = (s \<noteq> [])"
| "truthy_prim (PBool b) = b"

record nested_op =
  n_id :: "string option"
  n_body :: string

datatype opval = OPrim prim | OObj nested_op

fun truthy_opval :: "opval \<Rightarrow> bool" where
  "truthy_opval (OPrim p) = truthy_prim p"
| "truthy_opval (OObj n) = True"

text \<open>
  The \<^verbatim>\<open>board:ops\<close> handler also reads the optional fields \<^verbatim>\<open>opId\<close> and
  \<^verbatim>\<open>op\<close> of a submitted object.
\<close>

record item = client_op +
  it_opId :: "string option"
  it_op :: "opval option"

text \<open>
  An element of the submitted \<^verbatim>\<open>ops\<close> array: \<^verbatim>\<open>null\<close>, a primitive, or an object.
\<close>

datatype wire_op = WNull | WPrim prim | WObj item

subsection \<open>Stored records\<close>

text \<open>
  The payload a \<^verbatim>\<open>BoardOp\<close> record holds, \<^verbatim>\<open>item.op || item\<close>: the value of the
  \<^verbatim>\<open>op\<close> field when it is truthy (\<open>SVal\<close>), else the submitted object itself
  (\<open>SItem\<close>), the wrapper \<^verbatim>\<open>{ op: o }\<close> of a falsy primitive (\<open>SWrapped\<close>), or, in the
  restore tool, the entry of the export file with its \<^verbatim>\<open>seq\<close>, \<^verbatim>\<open>opId\<close> and
  \<^verbatim>\<open>authorId\<close> (\<open>SArt\<close>).
\<close>

datatype stored_op =
    SVal opval
  | SItem item
  | SWrapped prim
  | SArt "nat option" "string option" "string option"

fun truthy_stored :: "stored_op \<Rightarrow> bool" where
  "truthy_stored (SVal v) = truthy_opval v"
| "truthy_stored _ = True"

record board_op =
  bo_boardId :: string
  bo_seq :: "nat option"
  bo_opId :: string
  bo_op :: stored_op
  bo_authorId :: "string option"

record board_snapshot =
  bs_boardId :: string
  bs_version :: nat
  bs_tldraw :: "string option"
  bs_checksum :: string

record member =
  m_userId :: string
  m_role :: string

record board =
  b_title :: string
  b_tldraw :: "string option"
  b_members :: "member list"
  b_publicViewerToken :: string

text \<open>
  The collections: \<^verbatim>\<open>Counter\<close> (by key), \<^verbatim>\<open>BoardOp\<close> and \<^verbatim>\<open>BoardSnapshot\<close>
  (in insertion order), \<^verbatim>\<open>Board\<close> (by id), \<^verbatim>\<open>User\<close> (id by lower-cased email).
\<close>

record db =
  counters :: "string \<rightharpoonup> nat"
  boardops :: "board_op list"
  snapshots :: "board_snapshot list"
  boards :: "string \<rightharpoonup> board"
  users :: "string \<rightharpoonup> string"

definition empty_db :: db where
  "empty_db = \<lparr>counters = Map.empty, boardops = [], snapshots = [],
               boards = Map.empty, users = Map.empty\<rparr>"

text \<open>
  What the code cannot decide by itself: the value \<^verbatim>\<open>crypto.randomUUID()\<close> returns when
  it is evaluated for the item at a given index of the list being processed, whether
  the storage layer throws at \<^verbatim>\<open>BoardOp.create\<close> for that item, whether committing
  the transaction throws, the checksum function \<^verbatim>\<open>hashObj\<close> (SHA-256 of the JSON
  text), and the id the database generates for a board created without one.
\<close>

record env =
  uuid :: "nat \<Rightarrow> string"
  create_fails :: "nat \<Rightarrow> bool"
  commit_fails :: bool
  hashObj :: "string option \<Rightarrow> string"
  fresh_id :: string

datatype error = TypeError | StorageError

subsection \<open>Sequence allocator\<close>

definition counter_key :: "string \<Rightarrow> string" where
  "counter_key boardId = ''board:'' @ boardId @ '':op_seq''"

text \<open>
  \<^verbatim>\<open>findOneAndUpdate({_id: key}, {$inc: {seq: 1}}, {new: true, upsert: true})\<close>: a missing
  counter is created from 0 and incremented; the updated value is returned.
\<close>

definition nextBoardSeq :: "string \<Rightarrow> db \<Rightarrow> nat \<times> db" where
  "nextBoardSeq boardId d =
     (let key = counter_key boardId;
          n = (case counters d key of None \<Rightarrow> 0 | Some c \<Rightarrow> c) + 1
      in (n, d\<lparr>counters := (counters d)(key \<mapsto> n)\<rparr>))"

subsection \<open>Persistence buffer\<close>

text \<open>
  A JavaScript \<^verbatim>\<open>Map\<close> iterates in insertion order, and \<^verbatim>\<open>set\<close> on a key
  that is present keeps the key's position: an association list updated in place.
\<close>

fun map_set :: "'k \<Rightarrow> 'v \<Rightarrow> ('k \<times> 'v) list \<Rightarrow> ('k \<times> 'v) list" where
  "map_set k v [] = [(k, v)]"
| "map_set k v ((k', v') # kvs) =
     (if k = k' then (k, v) # kvs else (k', v') # map_set k v kvs)"

definition merge_step ::
  "(string \<times> 'a client_op_scheme) list \<Rightarrow> 'a client_op_scheme \<Rightarrow> (string \<times> 'a client_op_scheme) list" where
  "merge_step m op =
     (case map_of m (op_id op) of
        None \<Rightarrow> map_set (op_id op) op m
      | Some cur \<Rightarrow> if op_ts op \<ge> op_ts cur then map_set (op_id op) op m else m)"

text \<open>
  \<^verbatim>\<open>Array.prototype.sort\<close> is stable and the comparator is \<^verbatim>\<open>a.ts - b.ts\<close>:
  a stable insertion sort on the timestamp.
\<close>

definition mergeOps :: "'a client_op_scheme list \<Rightarrow> 'a client_op_scheme list \<Rightarrow> 'a client_op_scheme list" where
  "mergeOps existing incoming =
     sort_key op_ts (map snd (foldl merge_step [] (existing @ incoming)))"

record buffer =
  buf_ops :: "wire_op list"
  buf_snapshot :: "string option"
  buf_timer :: bool

text \<open>
  \<^verbatim>\<open>enqueuePersist\<close>: the per-board accumulator is created on first use, the
  operations are pushed, a snapshot replaces the pending one, and a flush timer is
  armed unless one is pending.
\<close>

definition enqueuePersist ::
  "string \<Rightarrow> wire_op list \<Rightarrow> string option \<Rightarrow> (string \<rightharpoonup> buffer) \<Rightarrow> (string \<rightharpoonup> buffer)" where
  "enqueuePersist boardId ops snapshot bufs =
     (let buf = (case bufs boardId of
                   None \<Rightarrow> \<lparr>buf_ops = [], buf_snapshot = None, buf_timer = False\<rparr>
                 | Some b \<Rightarrow> b);
          buf1 = (if ops \<noteq> [] then buf\<lparr>buf_ops := buf_ops buf @ ops\<rparr> else buf);
          buf2 = (case snapshot of None \<Rightarrow> buf1 | Some sn \<Rightarrow> buf1\<lparr>buf_snapshot := Some sn\<rparr>);
          buf3 = (if \<not> buf_timer buf2 then buf2\<lparr>buf_timer := True\<rparr> else buf2)
      in bufs(boardId \<mapsto> buf3))"

subsection \<open>Sync coordinator: the \<^verbatim>\<open>board:ops\<close> handler\<close>

record socket =
  sock_id :: string
  sock_userId :: "string option"
  sock_boardId :: "string option"
  sock_role :: string

record ops_payload =
  p_ops :: "wire_op list"
  p_snapshot :: "string option"

record broadcast =
  ev_room :: string
  ev_sender :: string
  ev_ops :: "wire_op list"
  ev_snapshot :: "string option"

record server =
  sdb :: db
  buffers :: "string \<rightharpoonup> buffer"
  emitted :: "broadcast list"

datatype ack = Ack_ok | Ack_error string

text \<open>
  \<^verbatim>\<open>item.opId || (item.op && item.op.id) || crypto.randomUUID()\<close>, on the array
  \<^verbatim>\<open>ops.map(o => typeof o === 'object' ? o : { op: o })\<close>. A primitive is wrapped as
  \<^verbatim>\<open>{ op: o }\<close>, which has no \<^verbatim>\<open>opId\<close> and whose \<^verbatim>\<open>op.id\<close> is undefined;
  \<^verbatim>\<open>null\<close> has type \<^verbatim>\<open>'object'\<close>, stays \<^verbatim>\<open>null\<close>, and reading
  \<^verbatim>\<open>item.opId\<close> from it throws.
\<close>

fun nested_id :: "opval option \<Rightarrow> string option" where
  "nested_id (Some (OObj n)) = nonempty (n_id n)"
| "nested_id _ = None"

fun client_key :: "wire_op \<Rightarrow> string option" where
  "client_key (WObj it) =
     (case nonempty (it_opId it) of Some k \<Rightarrow> Some k | None \<Rightarrow> nested_id (it_op it))"
| "client_key _ = None"

fun resolve_opId :: "env \<Rightarrow> nat \<Rightarrow> wire_op \<Rightarrow> error + string" where
  "resolve_opId e i WNull = Inl TypeError"
| "resolve_opId e i w = Inr (case client_key w of Some k \<Rightarrow> k | None \<Rightarrow> uuid e i)"

text \<open>\<^verbatim>\<open>op: item.op || item\<close>\<close>

fun payload_of :: "wire_op \<Rightarrow> stored_op" where
  "payload_of (WObj it) =
     (case it_op it of
        Some v \<Rightarrow> if truthy_opval v then SVal v else SItem it
      | None \<Rightarrow> SItem it)"
| "payload_of (WPrim p) = (if truthy_prim p then SVal (OPrim p) else SWrapped p)"
| "payload_of WNull = SWrapped (PBool False)"
  \<comment> \<open>never reached: \<open>resolve_opId\<close> has thrown for \<^verbatim>\<open>null\<close> before the payload is read\<close>

text \<open>\<^verbatim>\<open>BoardOp.findOne({ boardId, opId })\<close>: the first record with that pair.\<close>

definition findOne_op :: "db \<Rightarrow> string \<Rightarrow> string \<Rightarrow> board_op option" where
  "findOne_op d boardId opId =
     find (\<lambda>r. bo_boardId r = boardId \<and> bo_opId r = opId) (boardops d)"

definition countOps :: "db \<Rightarrow> string \<Rightarrow> nat" where
  "countOps d boardId = length (filter (\<lambda>r. bo_boardId r = boardId) (boardops d))"

definition countSnapshots :: "db \<Rightarrow> string \<Rightarrow> nat" where
  "countSnapshots d boardId = length (filter (\<lambda>s. bs_boardId s = boardId) (snapshots d))"

text \<open>
  The \<^verbatim>\<open>for (const item of arr)\<close> loop of the transaction body, on the transaction's
  view of the database. The index counts the items from 0. \<open>boardId\<close> is the socket's
  string: the query and the new record cast it, the counter key does not.
\<close>

fun ops_loop :: "env \<Rightarrow> string \<Rightarrow> string option \<Rightarrow> nat \<Rightarrow> wire_op list \<Rightarrow> db \<Rightarrow> error + db" where
  "ops_loop e boardId author i [] d = Inr d"
| "ops_loop e boardId author i (w # ws) d =
     (case resolve_opId e i w of
        Inl err \<Rightarrow> Inl err
      | Inr opId \<Rightarrow>
          (case findOne_op d (objectId boardId) opId of
             Some ex \<Rightarrow> ops_loop e boardId author (Suc i) ws d
           | None \<Rightarrow>
               (let (seq, d1) = nextBoardSeq boardId d in
                if create_fails e i then Inl StorageError
                else ops_loop e boardId author (Suc i) ws
                       (d1\<lparr>boardops := boardops d1 @
                           [\<lparr>bo_boardId = objectId boardId, bo_seq = Some seq, bo_opId = opId,
                             bo_op = payload_of w, bo_authorId = nonempty author\<rparr>]\<rparr>))))"

text \<open>
  The checkpoint trigger: once per transaction, after the loop, on the count of the
  board's operation records.
\<close>

definition checkpoint :: "env \<Rightarrow> string \<Rightarrow> db \<Rightarrow> db" where
  "checkpoint e boardId d =
     (if countOps d (objectId boardId) mod 200 = 0 then
        (case boards d (objectId boardId) of
           None \<Rightarrow> d
         | Some b \<Rightarrow>
             d\<lparr>snapshots := snapshots d @
                 [\<lparr>bs_boardId = objectId boardId,
                   bs_version = countSnapshots d (objectId boardId) + 1,
                   bs_tldraw = b_tldraw b, bs_checksum = hashObj e (b_tldraw b)\<rparr>]\<rparr>)
      else d)"

definition txn_body :: "env \<Rightarrow> string \<Rightarrow> string option \<Rightarrow> wire_op list \<Rightarrow> db \<Rightarrow> error + db" where
  "txn_body e boardId author ops d =
     (case ops_loop e boardId author 0 ops d of
        Inl err \<Rightarrow> Inl err
      | Inr d1 \<Rightarrow> Inr (checkpoint e boardId d1))"

text \<open>
  \<^verbatim>\<open>session.withTransaction\<close>: every read and write of the body carries the session,
  so the body works on the transaction's view; the view replaces the database when
  the commit succeeds and is dropped when the body or the commit throws. One
  attempt is modelled.
\<close>

definition withTransaction :: "env \<Rightarrow> (db \<Rightarrow> error + db) \<Rightarrow> db \<Rightarrow> (error + unit) \<times> db" where
  "withTransaction e body d =
     (case body d of
        Inl err \<Rightarrow> (Inl err, d)
      | Inr d' \<Rightarrow> if commit_fails e then (Inl StorageError, d) else (Inr (), d'))"

definition board_ops :: "env \<Rightarrow> socket \<Rightarrow> ops_payload \<Rightarrow> server \<Rightarrow> ack \<times> server" where
  "board_ops e sock payload s =
     (case nonempty (sock_boardId sock) of
        None \<Rightarrow> (Ack_error ''no-room'', s)
      | Some boardId \<Rightarrow>
          if sock_role sock \<notin> set [''owner'', ''editor''] then (Ack_error ''read-only'', s)
          else
            (let s1 = s\<lparr>emitted := emitted s @
                        [\<lparr>ev_room = boardId, ev_sender = sock_id sock,
                          ev_ops = p_ops payload, ev_snapshot = p_snapshot payload\<rparr>]\<rparr>;
                 s2 = s1\<lparr>buffers := enqueuePersist boardId (p_ops payload) (p_snapshot payload) (buffers s1)\<rparr>
             in case withTransaction e (txn_body e boardId (sock_userId sock) (p_ops payload)) (sdb s2) of
                  (Inl err, d') \<Rightarrow> (Ack_error ''persist failed'', s2\<lparr>sdb := d'\<rparr>)
                | (Inr u, d') \<Rightarrow> (Ack_ok, s2\<lparr>sdb := d'\<rparr>)))"

text \<open>
  \<^verbatim>\<open>room:join\<close>, as far as it resolves the role a socket writes with: the role of
  the member for a signed-in user (\<^verbatim>\<open>viewer\<close> for a non-member), \<^verbatim>\<open>viewer\<close> for an
  anonymous socket that presents the board's public token.
\<close>

definition room_join :: "string \<Rightarrow> string option \<Rightarrow> socket \<Rightarrow> db \<Rightarrow> ack \<times> socket" where
  "room_join boardId token sock d =
     (case boards d (objectId boardId) of
        None \<Rightarrow> (Ack_error ''Board not found'', sock)
      | Some b \<Rightarrow>
          (case nonempty (sock_userId sock) of
             Some u \<Rightarrow>
               (let role = (case find (\<lambda>x. m_userId x = u) (b_members b) of
                              Some m \<Rightarrow> m_role m | None \<Rightarrow> ''viewer'')
                in (Ack_ok, sock\<lparr>sock_boardId := Some boardId, sock_role := role\<rparr>))
           | None \<Rightarrow>
               if \<not> (nonempty token \<noteq> None \<and> token = Some (b_publicViewerToken b))
               then (Ack_error ''Unauthenticated'', sock)
               else (Ack_ok, sock\<lparr>sock_boardId := Some boardId, sock_role := ''viewer''\<rparr>)))"

subsection \<open>Members and roles\<close>

datatype http_error = Status nat string | SaveRejected

text \<open>
  The board schema of server.js restricts a member's role to the enumeration below;
  \<^verbatim>\<open>b.save()\<close> rejects a role outside it and nothing is written.
\<close>

definition valid_role :: "string \<Rightarrow> bool" where
  "valid_role r \<longleftrightarrow> r \<in> set [''owner'', ''editor'', ''viewer'']"

definition save_board :: "string \<Rightarrow> board \<Rightarrow> string \<Rightarrow> db \<Rightarrow> http_error + db" where
  "save_board boardId b role d =
     (if valid_role role then Inr (d\<lparr>boards := (boards d)(boardId \<mapsto> b)\<rparr>) else Inl SaveRejected)"

definition find_member :: "string \<Rightarrow> member list \<Rightarrow> member option" where
  "find_member uid ms = find (\<lambda>m. m_userId m = uid) ms"

definition owners :: "member list \<Rightarrow> member list" where
  "owners ms = filter (\<lambda>x. m_role x = ''owner'') ms"

text \<open>\<^verbatim>\<open>m.role = role\<close> on the member that \<^verbatim>\<open>find\<close> returned: the first match.\<close>

fun set_role :: "string \<Rightarrow> string \<Rightarrow> member list \<Rightarrow> member list" where
  "set_role uid r [] = []"
| "set_role uid r (m # ms) =
     (if m_userId m = uid then m\<lparr>m_role := r\<rparr> # ms else m # set_role uid r ms)"

text \<open>\<^verbatim>\<open>b.members.splice(idx, 1)\<close> at the index \<^verbatim>\<open>findIndex\<close> returned.\<close>

fun splice_member :: "string \<Rightarrow> member list \<Rightarrow> member list" where
  "splice_member uid [] = []"
| "splice_member uid (m # ms) = (if m_userId m = uid then ms else m # splice_member uid ms)"

text \<open>
  \<^verbatim>\<open>User.findOne({ email: String(email).toLowerCase() })\<close>: the user schema declares
  \<^verbatim>\<open>email\<close> with \<^verbatim>\<open>lowercase: true, trim: true\<close>, and the query value passes
  through the same setters.
\<close>

definition findUser :: "db \<Rightarrow> string \<Rightarrow> string option" where
  "findUser d email = users d (trim (toLowerCase (toLowerCase email)))"

text \<open>\<^verbatim>\<open>POST /api/boards/:id/members\<close>, for the signed-in user \<open>me\<close>.\<close>

definition post_member ::
  "string \<Rightarrow> string \<Rightarrow> string option \<Rightarrow> string option \<Rightarrow> db \<Rightarrow> http_error + db" where
  "post_member boardId me email role d =
     (case (nonempty email, nonempty role) of
        (Some em, Some r) \<Rightarrow>
          (case boards d boardId of
             None \<Rightarrow> Inl (Status 404 ''Not found'')
           | Some b \<Rightarrow>
               (case find_member me (b_members b) of
                  None \<Rightarrow> Inl (Status 403 ''Only owner can add members'')
                | Some mine \<Rightarrow>
                    if m_role mine \<noteq> ''owner'' then Inl (Status 403 ''Only owner can add members'')
                    else
                      (case findUser d em of
                         None \<Rightarrow> Inl (Status 404 ''User not found'')
                       | Some u \<Rightarrow>
                           (case find_member u (b_members b) of
                              Some already \<Rightarrow>
                                save_board boardId (b\<lparr>b_members := set_role u r (b_members b)\<rparr>) r d
                            | None \<Rightarrow>
                                save_board boardId
                                  (b\<lparr>b_members := b_members b @ [\<lparr>m_userId = u, m_role = r\<rparr>]\<rparr>) r d))))
      | _ \<Rightarrow> Inl (Status 400 ''email and role required''))"

text \<open>\<^verbatim>\<open>PATCH /api/boards/:id/members\<close>\<close>

definition patch_member ::
  "string \<Rightarrow> string \<Rightarrow> string option \<Rightarrow> string option \<Rightarrow> db \<Rightarrow> http_error + db" where
  "patch_member boardId me userId role d =
     (case (nonempty userId, nonempty role) of
        (Some uid, Some r) \<Rightarrow>
          (case boards d boardId of
             None \<Rightarrow> Inl (Status 404 ''Not found'')
           | Some b \<Rightarrow>
               (case find_member me (b_members b) of
                  None \<Rightarrow> Inl (Status 403 ''Only owner can change roles'')
                | Some mine \<Rightarrow>
                    if m_role mine \<noteq> ''owner'' then Inl (Status 403 ''Only owner can change roles'')
                    else
                      (case find_member uid (b_members b) of
                         None \<Rightarrow> Inl (Status 404 ''Member not found'')
                       | Some m \<Rightarrow>
                           if m_role m = ''owner'' \<and> r \<noteq> ''owner'' \<and> length (owners (b_members b)) \<le> 1
                           then Inl (Status 400 ''Must keep at least one owner'')
                           else save_board boardId (b\<lparr>b_members := set_role uid r (b_members b)\<rparr>) r d)))
      | _ \<Rightarrow> Inl (Status 400 ''userId and role required''))"

text \<open>\<^verbatim>\<open>DELETE /api/boards/:id/members/:userId\<close>\<close>

definition delete_member :: "string \<Rightarrow> string \<Rightarrow> string \<Rightarrow> db \<Rightarrow> http_error + db" where
  "delete_member boardId me target d =
     (case boards d boardId of
        None \<Rightarrow> Inl (Status 404 ''Not found'')
      | Some b \<Rightarrow>
          (case find_member me (b_members b) of
             None \<Rightarrow> Inl (Status 403 ''Only owner can remove members'')
           | Some mine \<Rightarrow>
               if m_role mine \<noteq> ''owner'' then Inl (Status 403 ''Only owner can remove members'')
               else
                 (case find_member target (b_members b) of
                    None \<Rightarrow> Inl (Status 404 ''Member not found'')
                  | Some m \<Rightarrow>
                      if m_role m = ''owner'' \<and> length (owners (b_members b)) \<le> 1
                      then Inl (Status 400 ''Must keep at least one owner'')
                      else Inr (d\<lparr>boards := (boards d)(boardId \<mapsto>
                                   b\<lparr>b_members := splice_member target (b_members b)\<rparr>)\<rparr>))))"

subsection \<open>Export\<close>

text \<open>
  An entry of the \<^verbatim>\<open>ops\<close> array of an export file, and the file itself with
  its \<^verbatim>\<open>meta\<close> fields. Every field the restore tool guards with \<^verbatim>\<open>||\<close> or
  \<^verbatim>\<open>?.\<close> is optional.
\<close>

record art_op =
  x_seq :: "nat option"
  x_opId :: "string option"
  x_op :: "stored_op option"
  x_authorId :: "string option"

record artifact =
  a_boardId :: "string option"
  a_title :: "string option"
  a_baseVersion :: nat
  a_checksum :: string
  a_snapshot :: "string option"
  a_ops :: "art_op list"
  a_members :: "member list"

text \<open>\<^verbatim>\<open>BoardSnapshot.findOne({ boardId }).sort({ version: -1 })\<close>\<close>

definition latestSnap :: "db \<Rightarrow> string \<Rightarrow> board_snapshot option" where
  "latestSnap d boardId =
     foldl (\<lambda>best s. case best of
                         None \<Rightarrow> Some s
                       | Some t \<Rightarrow> if bs_version t < bs_version s then Some s else Some t)
           None (filter (\<lambda>s. bs_boardId s = boardId) (snapshots d))"

definition export_op :: "board_op \<Rightarrow> art_op" where
  "export_op r = \<lparr>x_seq = bo_seq r, x_opId = Some (bo_opId r), x_op = Some (bo_op r),
                  x_authorId = bo_authorId r\<rparr>"

text \<open>
  \<^verbatim>\<open>GET /api/boards/:id/export\<close> for the signed-in user \<open>me\<close>; the operations are
  read with \<^verbatim>\<open>sort({ seq: 1 })\<close>, where a missing \<^verbatim>\<open>seq\<close> sorts first.
\<close>

definition export_board :: "env \<Rightarrow> string \<Rightarrow> string \<Rightarrow> db \<Rightarrow> http_error + artifact" where
  "export_board e boardId me d =
     (case boards d boardId of
        None \<Rightarrow> Inl (Status 404 ''Board not found'')
      | Some b \<Rightarrow>
          if find_member me (b_members b) = None then Inl (Status 403 ''Forbidden'')
          else
            (let latest = latestSnap d boardId;
                 baseVersion = (case latest of Some s \<Rightarrow> bs_version s | None \<Rightarrow> 0);
                 snapshot = (case latest of
                               Some s \<Rightarrow> (case bs_tldraw s of Some t \<Rightarrow> Some t | None \<Rightarrow> b_tldraw b)
                             | None \<Rightarrow> b_tldraw b);
                 ops = sort_key bo_seq (filter (\<lambda>r. bo_boardId r = boardId) (boardops d));
                 fallback = (case snapshot of Some t \<Rightarrow> hashObj e (Some t) | None \<Rightarrow> []);
                 checksum = (case latest of
                               Some s \<Rightarrow> if bs_checksum s \<noteq> [] then bs_checksum s else fallback
                             | None \<Rightarrow> fallback)
             in Inr \<lparr>a_boardId = Some boardId, a_title = Some (b_title b),
                      a_baseVersion = baseVersion, a_checksum = checksum, a_snapshot = snapshot,
                      a_ops = map export_op ops, a_members = b_members b\<rparr>))"

subsection \<open>Restore\<close>

text \<open>
  Steps of \<^verbatim>\<open>main\<close> in tools/restore.js. First the target board: found by the
  file's board id, or created (with that id when the file has one).
\<close>

definition merge_members :: "member list \<Rightarrow> member list \<Rightarrow> member list" where
  "merge_members cur inc = map snd (foldl (\<lambda>m x. map_set (m_userId x) x m) [] (cur @ inc))"

definition restore_board :: "env \<Rightarrow> artifact \<Rightarrow> db \<Rightarrow> string \<times> db" where
  "restore_board e a d =
     (let title = (case nonempty (a_title a) of Some t \<Rightarrow> t | None \<Rightarrow> ''Recovered Board'');
          existing = (case nonempty (a_boardId a) of
                        None \<Rightarrow> None
                      | Some i \<Rightarrow> (case boards d i of None \<Rightarrow> None | Some b \<Rightarrow> Some (i, b)))
      in case existing of
           None \<Rightarrow>
             (let newId = (case nonempty (a_boardId a) of Some i \<Rightarrow> i | None \<Rightarrow> fresh_id e)
              in (newId, d\<lparr>boards := (boards d)(newId \<mapsto>
                           \<lparr>b_title = title, b_tldraw = a_snapshot a, b_members = a_members a,
                            b_publicViewerToken = []\<rparr>)\<rparr>))
         | Some (i, b) \<Rightarrow>
             (let curHash = (case b_tldraw b of Some t \<Rightarrow> hashObj e (Some t) | None \<Rightarrow> []);
                  newHash = (case a_snapshot a of Some t \<Rightarrow> hashObj e (Some t) | None \<Rightarrow> []);
                  b1 = (if newHash \<noteq> [] \<and> newHash \<noteq> curHash then b\<lparr>b_tldraw := a_snapshot a\<rparr> else b);
                  b2 = b1\<lparr>b_members := merge_members (b_members b) (a_members a)\<rparr>
              in (i, d\<lparr>boards := (boards d)(i \<mapsto> b2)\<rparr>)))"

text \<open>"restore snapshot record (version = next)"\<close>

definition restore_snapshot :: "env \<Rightarrow> string \<Rightarrow> artifact \<Rightarrow> db \<Rightarrow> db" where
  "restore_snapshot e boardId a d =
     (case a_snapshot a of
        None \<Rightarrow> d
      | Some sn \<Rightarrow>
          d\<lparr>snapshots := snapshots d @
              [\<lparr>bs_boardId = boardId, bs_version = countSnapshots d boardId + 1,
                bs_tldraw = Some sn, bs_checksum = hashObj e (Some sn)\<rparr>]\<rparr>)"

text \<open>\<^verbatim>\<open>x || 0\<close> on a sequence number.\<close>

definition seq_or0 :: "nat option \<Rightarrow> nat" where
  "seq_or0 x = (case x of None \<Rightarrow> 0 | Some n \<Rightarrow> n)"

text \<open>
  \<^verbatim>\<open>BoardOp.findOne({ boardId, opId: item.opId })\<close>: with an undefined
  \<^verbatim>\<open>opId\<close> the query asks for a record without one, and every stored record
  has one.
\<close>

definition findOne_restore :: "db \<Rightarrow> string \<Rightarrow> string option \<Rightarrow> board_op option" where
  "findOne_restore d boardId k = (case k of None \<Rightarrow> None | Some opId \<Rightarrow> findOne_op d boardId opId)"

definition restore_payload :: "art_op \<Rightarrow> stored_op" where
  "restore_payload it =
     (case x_op it of
        Some v \<Rightarrow> if truthy_stored v then v else SArt (x_seq it) (x_opId it) (x_authorId it)
      | None \<Rightarrow> SArt (x_seq it) (x_opId it) (x_authorId it))"

definition restored_op :: "env \<Rightarrow> string \<Rightarrow> nat \<Rightarrow> art_op \<Rightarrow> board_op" where
  "restored_op e boardId i it =
     \<lparr>bo_boardId = boardId, bo_seq = x_seq it,
      bo_opId = (case nonempty (x_opId it) of Some k \<Rightarrow> k | None \<Rightarrow> uuid e i),
      bo_op = restore_payload it, bo_authorId = nonempty (x_authorId it)\<rparr>"

text \<open>
  The insert loop with its running \<^verbatim>\<open>maxSeq\<close>. An insert that throws is caught
  inside the loop and the item is skipped.
\<close>

fun restore_ops :: "env \<Rightarrow> string \<Rightarrow> nat \<Rightarrow> art_op list \<Rightarrow> db \<Rightarrow> nat \<Rightarrow> db \<times> nat" where
  "restore_ops e boardId i [] d maxSeq = (d, maxSeq)"
| "restore_ops e boardId i (it # its) d maxSeq =
     (case findOne_restore d boardId (x_opId it) of
        Some ex \<Rightarrow> restore_ops e boardId (Suc i) its d (max maxSeq (seq_or0 (bo_seq ex)))
      | None \<Rightarrow>
          if create_fails e i then restore_ops e boardId (Suc i) its d maxSeq
          else
            (let created = restored_op e boardId i it
             in restore_ops e boardId (Suc i) its
                  (d\<lparr>boardops := boardops d @ [created]\<rparr>)
                  (max maxSeq (seq_or0 (bo_seq created)))))"

text \<open>"ensure counter is at least maxSeq"\<close>

definition reconcile_counter :: "string \<Rightarrow> nat \<Rightarrow> db \<Rightarrow> db" where
  "reconcile_counter boardId maxSeq d =
     (let key = counter_key boardId
      in case counters d key of
           None \<Rightarrow> d\<lparr>counters := (counters d)(key \<mapsto> maxSeq)\<rparr>
         | Some c \<Rightarrow> if c < maxSeq then d\<lparr>counters := (counters d)(key \<mapsto> maxSeq)\<rparr> else d)"

definition restore :: "env \<Rightarrow> artifact \<Rightarrow> db \<Rightarrow> db" where
  "restore e a d =
     (let (boardId, d1) = restore_board e a d;
          d2 = restore_snapshot e boardId a d1;
          (d3, maxSeq) = restore_ops e boardId 0 (a_ops a) d2 0
      in reconcile_counter boardId maxSeq d3)"

subsection \<open>Invariants used in the proofs\<close>

text \<open>
  The association list built by \<open>mergeOps\<close> after the operations \<open>seen\<close>: one entry per
  id seen, holding an operation seen under that id with the greatest timestamp.
\<close>

definition merge_inv :: "'a client_op_scheme list \<Rightarrow> (string \<times> 'a client_op_scheme) list \<Rightarrow> bool" where
  "merge_inv seen m \<longleftrightarrow>
     distinct (map fst m) \<and> set (map fst m) = op_id ` set seen \<and>
     (\<forall>k v. map_of m k = Some v \<longrightarrow> op_id v = k \<and> v \<in> set seen \<and>
        (\<forall>y \<in> set seen. op_id y = k \<longrightarrow> op_ts y \<le> op_ts v))"

text \<open>The value of a board's counter, 0 while the counter record is missing.\<close>

definition counter_val :: "db \<Rightarrow> string \<Rightarrow> nat" where
  "counter_val d boardId = (case counters d (counter_key boardId) of None \<Rightarrow> 0 | Some c \<Rightarrow> c)"

definition board_records :: "db \<Rightarrow> string \<Rightarrow> board_op list" where
  "board_records d boardId = filter (\<lambda>r. bo_boardId r = boardId) (boardops d)"

text \<open>
  One pass of the loop body of \<open>ops_loop\<close> that inserts: the sequence number is
  allocated and the record is appended.
\<close>

definition insert_op :: "string \<Rightarrow> string option \<Rightarrow> string \<Rightarrow> wire_op \<Rightarrow> db \<Rightarrow> db" where
  "insert_op boardId author opId w d =
     (let (seq, d1) = nextBoardSeq boardId d
      in d1\<lparr>boardops := boardops d1 @
             [\<lparr>bo_boardId = objectId boardId, bo_seq = Some seq, bo_opId = opId,
               bo_op = payload_of w, bo_authorId = nonempty author\<rparr>]\<rparr>)"

subsection \<open>A concrete board for the worked examples\<close>

definition demo_uuid :: "nat \<Rightarrow> string" where
  "demo_uuid n = ''uuid-'' @ replicate n (CHR ''x'')"

definition never :: "nat \<Rightarrow> bool" where
  "never i = False"

definition demo_hash :: "string option \<Rightarrow> string" where
  "demo_hash t = (case t of None \<Rightarrow> ''h0'' | Some x \<Rightarrow> ''h1-'' @ x)"

definition demo_env :: env where
  "demo_env = \<lparr>uuid = demo_uuid, create_fails = never, commit_fails = False,
               hashObj = demo_hash, fresh_id = ''fresh''\<rparr>"

definition demo_board :: board where
  "demo_board = \<lparr>b_title = ''B'', b_tldraw = None,
                 b_members = [\<lparr>m_userId = ''u1'', m_role = ''owner''\<rparr>],
                 b_publicViewerToken = []\<rparr>"

definition demo_db :: db where
  "demo_db = \<lparr>counters = Map.empty, boardops = [], snapshots = [],
              boards = [''b1'' \<mapsto> demo_board], users = [''ann@x.org'' \<mapsto> ''u1'']\<rparr>"

definition demo_server :: server where
  "demo_server = \<lparr>sdb = demo_db, buffers = Map.empty, emitted = []\<rparr>"

definition demo_sock :: socket where
  "demo_sock = \<lparr>sock_id = ''s1'', sock_userId = Some ''u1'', sock_boardId = Some ''b1'',
                sock_role = ''owner''\<rparr>"

text \<open>An operation that carries the idempotency key \<open>k\<close> in its \<^verbatim>\<open>opId\<close> field.\<close>

definition keyed :: "string \<Rightarrow> wire_op" where
  "keyed k = WObj \<lparr>op_id = k, op_ts = 0, op_changes = [], it_opId = Some k, it_op = None\<rparr>"

text \<open>An operation as whiteboard.jsx emits it: no \<^verbatim>\<open>opId\<close>, no nested \<^verbatim>\<open>op\<close>.\<close>

definition plain :: "string \<Rightarrow> wire_op" where
  "plain k = WObj \<lparr>op_id = k, op_ts = 0, op_changes = [], it_opId = None, it_op = None\<rparr>"

definition x1x2 :: ops_payload where
  "x1x2 = \<lparr>p_ops = [keyed ''x1'', keyed ''x2''], p_snapshot = None\<rparr>"

definition art_x1x2 :: artifact where
  "art_x1x2 = \<lparr>a_boardId = Some ''b1'', a_title = Some ''B'', a_baseVersion = 0, a_checksum = [],
               a_snapshot = None,
               a_ops = [\<lparr>x_seq = Some 1, x_opId = Some ''x1'', x_op = None, x_authorId = Some ''u1''\<rparr>,
                        \<lparr>x_seq = Some 2, x_opId = Some ''x2'', x_op = None, x_authorId = Some ''u1''\<rparr>],
               a_members = [\<lparr>m_userId = ''u1'', m_role = ''owner''\<rparr>]\<rparr>"

text \<open>The uniqueness key of each stored operation record, in insertion order.\<close>

definition op_keys :: "db \<Rightarrow> (string \<times> string) list" where
  "op_keys d = map (\<lambda>r. (bo_boardId r, bo_opId r)) (boardops d)"

text \<open>
  The export of the example board after the batch \<open>x1x2\<close> has been logged.
\<close>

definition demo_export :: artifact where
  "demo_export =
     \<lparr>a_boardId = Some ''b1'', a_title = Some ''B'', a_baseVersion = 0, a_checksum = [],
      a_snapshot = None,
      a_ops = [\<lparr>x_seq = Some 1, x_opId = Some ''x1'',
                 x_op = Some (SItem \<lparr>op_id = ''x1'', op_ts = 0, op_changes = [],
                                     it_opId = Some ''x1'', it_op = None\<rparr>),
                 x_authorId = Some ''u1''\<rparr>,
               \<lparr>x_seq = Some 2, x_opId = Some ''x2'',
                 x_op = Some (SItem \<lparr>op_id = ''x2'', op_ts = 0, op_changes = [],
                                     it_opId = Some ''x2'', it_op = None\<rparr>),
                 x_authorId = Some ''u1''\<rparr>],
      a_members = [\<lparr>m_userId = ''u1'', m_role = ''owner''\<rparr>]\<rparr>"

subsection \<open>The records a restore run covers\<close>

text \<open>
  The board the restore tool works on, the records this run inserted, the records
  already stored that the file's operations matched, and the sequence numbers
  (\<^verbatim>\<open>seq || 0\<close>) of both.
\<close>

definition target_board :: "env \<Rightarrow> artifact \<Rightarrow> db \<Rightarrow> string" where
  "target_board e a d = fst (restore_board e a d)"

definition inserted_records :: "env \<Rightarrow> artifact \<Rightarrow> db \<Rightarrow> board_op list" where
  "inserted_records e a d = drop (length (boardops d)) (boardops (restore e a d))"

definition matched_records :: "env \<Rightarrow> artifact \<Rightarrow> db \<Rightarrow> board_op list" where
  "matched_records e a d =
     List.map_filter (\<lambda>it. findOne_restore d (target_board e a d) (x_opId it)) (a_ops a)"

definition restored_seqs :: "env \<Rightarrow> artifact \<Rightarrow> db \<Rightarrow> nat list" where
  "restored_seqs e a d =
     map (\<lambda>r. seq_or0 (bo_seq r)) (inserted_records e a d @ matched_records e a d)"

text \<open>The greatest element of a list of sequence numbers, 0 for the empty list.\<close>

definition max_seq :: "nat list \<Rightarrow> nat" where
  "max_seq ns = foldr max ns 0"

text \<open>The example board with its counter already at 7.\<close>

definition demo_db7 :: db where
  "demo_db7 = demo_db\<lparr>counters := [counter_key ''b1'' \<mapsto> 7]\<rparr>"

text \<open>A signed-in user who is not a member of the example board, before joining.\<close>

definition guest_sock :: socket where
  "guest_sock = \<lparr>sock_id = ''s2'', sock_userId = Some ''u2'', sock_boardId = None,
                 sock_role = ''viewer''\<rparr>"

text \<open>A batch whose second element is \<^verbatim>\<open>null\<close>.\<close>

definition x1null :: ops_payload where
  "x1null = \<lparr>p_ops = [keyed ''x1'', WNull], p_snapshot = None\<rparr>"

text \<open>An environment in which the storage layer throws at the insert of the item at index 1.\<close>

definition fails_at1 :: "nat \<Rightarrow> bool" where
  "fails_at1 i = (i = 1)"

definition faulty_env :: env where
  "faulty_env = demo_env\<lparr>create_fails := fails_at1\<rparr>"

text \<open>A later call of the handler, in which \<^verbatim>\<open>randomUUID\<close> returns other values.\<close>

definition later_uuid :: "nat \<Rightarrow> string" where
  "later_uuid n = ''uuid+'' @ replicate n (CHR ''y'')"

definition later_env :: env where
  "later_env = demo_env\<lparr>uuid := later_uuid\<rparr>"

definition one_plain :: ops_payload where
  "one_plain = \<lparr>p_ops = [plain ''c1''], p_snapshot = None\<rparr>"

subsection \<open>Sequence order of a board's log\<close>

text \<open>
  The sequence numbers of a board's records are strictly increasing in insertion
  order and none exceeds the board's counter. (A missing number orders below every
  number.)
\<close>

definition seq_inv :: "db \<Rightarrow> string \<Rightarrow> bool" where
  "seq_inv d boardId \<longleftrightarrow>
     sorted_wrt (<) (map bo_seq (board_records d boardId)) \<and>
     (\<forall>r \<in> set (board_records d boardId). bo_seq r \<le> Some (counter_val d boardId))"


subsection \<open>Batches of numbered operations\<close>

text \<open>
  Operation number \<open>i\<close> carries the key \<open>key_of i\<close>; \<open>batch_of m n\<close> is the batch of the
  operations numbered from \<open>m\<close> up to, not including, \<open>n\<close>.
\<close>

definition key_of :: "nat \<Rightarrow> string" where
  "key_of i = replicate (Suc i) (CHR ''k'')"

definition numbered :: "nat \<Rightarrow> wire_op" where
  "numbered i = keyed (key_of i)"

definition batch_of :: "nat \<Rightarrow> nat \<Rightarrow> ops_payload" where
  "batch_of m n = \<lparr>p_ops = map numbered [m..<n], p_snapshot = None\<rparr>"

subsection \<open>Owners of a board\<close>

definition board_owners :: "db \<Rightarrow> string \<Rightarrow> member list" where
  "board_owners d boardId = (case boards d boardId of None \<Rightarrow> [] | Some b \<Rightarrow> owners (b_members b))"

subsection \<open>Stored operation ids\<close>

text \<open>Every stored operation record has a non-empty \<^verbatim>\<open>opId\<close>.\<close>

definition opids_ok :: "db \<Rightarrow> bool" where
  "opids_ok d \<longleftrightarrow> (\<forall>r \<in> set (boardops d). bo_opId r \<noteq> [])"


text \<open>
  The example owner's socket after joining the same board under the upper-case
  spelling of its id, and a batch with one more operation.
\<close>

definition upper_sock :: socket where
  "upper_sock = demo_sock\<lparr>sock_boardId := Some ''B1''\<rparr>"

definition z1 :: ops_payload where
  "z1 = \<lparr>p_ops = [keyed ''z1''], p_snapshot = None\<rparr>"


section \<open>Properties\<close>

subsection \<open>The flush-time merge\<close>

lemma map_of_map_set: "map_of (map_set k v m) k' = (if k' = k then Some v else map_of m k')"
  by (induction m) auto

lemma keys_map_set:
  "map fst (map_set k v m) = (if k \<in> set (map fst m) then map fst m else map fst m @ [k])"
  by (induction m) force+

lemma merge_inv_step:
  assumes "merge_inv seen m"
  shows "merge_inv (seen @ [x]) (merge_step m x)"
proof -
  from assms have d: "distinct (map fst m)"
    and ks: "set (map fst m) = op_id ` set seen"
    and vs: "\<And>k v. map_of m k = Some v \<Longrightarrow> op_id v = k \<and> v \<in> set seen \<and>
        (\<forall>y \<in> set seen. op_id y = k \<longrightarrow> op_ts y \<le> op_ts v)"
    unfolding merge_inv_def by blast+
  show ?thesis
  proof (cases "map_of m (op_id x)")
    case None
    then have nk: "op_id x \<notin> set (map fst m)" by (simp add: map_of_eq_None_iff)
    have ms: "merge_step m x = map_set (op_id x) x m"
      using None by (simp add: merge_step_def)
    have "distinct (map fst (merge_step m x))"
      using d nk by (simp add: ms keys_map_set)
    moreover have "set (map fst (merge_step m x)) = op_id ` set (seen @ [x])"
      using ks nk by (simp add: ms keys_map_set)
    moreover have "op_id v = k \<and> v \<in> set (seen @ [x]) \<and>
        (\<forall>y \<in> set (seen @ [x]). op_id y = k \<longrightarrow> op_ts y \<le> op_ts v)"
      if "map_of (merge_step m x) k = Some v" for k v
    proof (cases "k = op_id x")
      case True
      with that have "v = x" by (simp add: ms map_of_map_set)
      moreover have "op_id y \<noteq> op_id x" if "y \<in> set seen" for y
        using nk ks that by (metis imageI)
      ultimately show ?thesis using True by auto
    next
      case False
      with that have "map_of m k = Some v" by (simp add: ms map_of_map_set)
      from vs[OF this] False show ?thesis by auto
    qed
    ultimately show ?thesis unfolding merge_inv_def by blast
  next
    case (Some cur)
    then have mem: "op_id x \<in> set (map fst m)"
      by (metis map_of_eq_None_iff option.distinct(1) set_map)
    note cur = vs[OF Some]
    show ?thesis
    proof (cases "op_ts x \<ge> op_ts cur")
      case True
      have ms: "merge_step m x = map_set (op_id x) x m"
        using Some True by (simp add: merge_step_def)
      have "distinct (map fst (merge_step m x))"
        using d mem by (simp add: ms keys_map_set)
      moreover have "set (map fst (merge_step m x)) = op_id ` set (seen @ [x])"
        using ks mem by (auto simp add: ms keys_map_set)
      moreover have "op_id v = k \<and> v \<in> set (seen @ [x]) \<and>
          (\<forall>y \<in> set (seen @ [x]). op_id y = k \<longrightarrow> op_ts y \<le> op_ts v)"
        if "map_of (merge_step m x) k = Some v" for k v
      proof (cases "k = op_id x")
        case kx: True
        with that have "v = x" by (simp add: ms map_of_map_set)
        moreover have "op_ts y \<le> op_ts x" if "y \<in> set seen" "op_id y = op_id x" for y
          using cur that True by fastforce
        ultimately show ?thesis using kx by auto
      next
        case False
        with that have "map_of m k = Some v" by (simp add: ms map_of_map_set)
        from vs[OF this] False show ?thesis by auto
      qed
      ultimately show ?thesis unfolding merge_inv_def by blast
    next
      case False
      have ms: "merge_step m x = m"
        using Some False by (simp add: merge_step_def)
      have "set (map fst m) = op_id ` set (seen @ [x])"
        using ks mem by auto
      moreover have "op_id v = k \<and> v \<in> set (seen @ [x]) \<and>
          (\<forall>y \<in> set (seen @ [x]). op_id y = k \<longrightarrow> op_ts y \<le> op_ts v)"
        if "map_of m k = Some v" for k v
      proof (cases "k = op_id x")
        case kx: True
        with that Some have "v = cur" by simp
        with vs[OF that] False kx show ?thesis by auto
      next
        case nkx: False
        from vs[OF that] nkx show ?thesis by auto
      qed
      ultimately show ?thesis unfolding merge_inv_def ms using d by blast
    qed
  qed
qed

lemma merge_inv_foldl: "merge_inv seen m \<Longrightarrow> merge_inv (seen @ xs) (foldl merge_step m xs)"
proof (induction xs arbitrary: seen m)
  case Nil
  then show ?case by simp
next
  case (Cons x xs)
  from Cons.IH[OF merge_inv_step[OF Cons.prems, of x]] show ?case by simp
qed

lemma merge_inv_all: "merge_inv xs (foldl merge_step [] xs)"
  using merge_inv_foldl[of "[]" "[]" xs] by (simp add: merge_inv_def)

text \<open>
  Claim C9 (buffer merge policy). For every pair of lists of operations,
  \<open>mergeOps existing incoming\<close> holds exactly one operation for each id that occurs in
  the two lists; that operation is one of the submitted ones and no submitted
  operation with the same id has a greater timestamp; and the result is sorted by
  ascending timestamp.
\<close>

theorem mergeOps_policy:
  "distinct (map op_id (mergeOps existing incoming)) \<and>
   set (map op_id (mergeOps existing incoming)) = set (map op_id (existing @ incoming)) \<and>
   (\<forall>r \<in> set (mergeOps existing incoming).
      r \<in> set (existing @ incoming) \<and>
      (\<forall>y \<in> set (existing @ incoming). op_id y = op_id r \<longrightarrow> op_ts y \<le> op_ts r)) \<and>
   sorted (map op_ts (mergeOps existing incoming))"
proof -
  define m where "m = foldl merge_step [] (existing @ incoming)"
  have inv: "merge_inv (existing @ incoming) m"
    unfolding m_def by (rule merge_inv_all)
  have vals: "op_id v = k" if "(k, v) \<in> set m" for k v
    using inv that unfolding merge_inv_def by (metis map_of_is_SomeI)
  have ids: "map op_id (map snd m) = map fst m"
    using vals by (induction m) auto
  have mo: "mergeOps existing incoming = sort_key op_ts (map snd m)"
    by (simp add: mergeOps_def m_def)
  have d: "distinct (map fst m)" and k: "set (map fst m) = op_id ` set (existing @ incoming)"
    using inv unfolding merge_inv_def by blast+
  have c1: "distinct (map op_id (mergeOps existing incoming))"
    unfolding mo using d ids by (metis distinct_map distinct_sort set_sort)
  have c2: "set (map op_id (mergeOps existing incoming)) = set (map op_id (existing @ incoming))"
    unfolding mo using k ids by (metis list.set_map set_sort)
  have c3: "r \<in> set (existing @ incoming) \<and>
      (\<forall>y \<in> set (existing @ incoming). op_id y = op_id r \<longrightarrow> op_ts y \<le> op_ts r)"
    if "r \<in> set (mergeOps existing incoming)" for r
  proof -
    from that obtain k where kr: "(k, r) \<in> set m" unfolding mo by auto
    with d have "map_of m k = Some r" by simp
    with inv vals[OF kr] show ?thesis unfolding merge_inv_def by blast
  qed
  have c4: "sorted (map op_ts (mergeOps existing incoming))"
    unfolding mo by simp
  from c1 c2 c3 c4 show ?thesis by blast
qed

theorem mergeOps_policy_witness:
  "\<lparr>op_id = ''a'', op_ts = 7, op_changes = ''new''\<rparr>
     \<in> set (mergeOps [\<lparr>op_id = ''a'', op_ts = 5, op_changes = ''old''\<rparr>,
                      \<lparr>op_id = ''b'', op_ts = 3, op_changes = ''x''\<rparr>]
                     [\<lparr>op_id = ''a'', op_ts = 7, op_changes = ''new''\<rparr>,
                      \<lparr>op_id = ''c'', op_ts = 1, op_changes = ''y''\<rparr>]) \<and>
   op_ts \<lparr>op_id = ''a'', op_ts = 5, op_changes = ''old''\<rparr>
     \<le> op_ts \<lparr>op_id = ''a'', op_ts = 7, op_changes = ''new''\<rparr> \<and>
   map op_id (mergeOps [\<lparr>op_id = ''a'', op_ts = 5, op_changes = ''old''\<rparr>,
                        \<lparr>op_id = ''b'', op_ts = 3, op_changes = ''x''\<rparr>]
                       [\<lparr>op_id = ''a'', op_ts = 7, op_changes = ''new''\<rparr>,
                        \<lparr>op_id = ''c'', op_ts = 1, op_changes = ''y''\<rparr>]) = [''c'', ''b'', ''a'']"
  using mergeOps_policy
    [of "[\<lparr>op_id = ''a'', op_ts = 5, op_changes = ''old''\<rparr>, \<lparr>op_id = ''b'', op_ts = 3, op_changes = ''x''\<rparr>]"
        "[\<lparr>op_id = ''a'', op_ts = 7, op_changes = ''new''\<rparr>, \<lparr>op_id = ''c'', op_ts = 1, op_changes = ''y''\<rparr>]"]
  by (simp add: mergeOps_def merge_step_def)

subsection \<open>The transaction loop of the \<^verbatim>\<open>board:ops\<close> handler\<close>

lemma insert_op_boardops:
  "boardops (insert_op b a k w d) = boardops d @
     [\<lparr>bo_boardId = objectId b, bo_seq = Some (counter_val d b + 1), bo_opId = k,
       bo_op = payload_of w, bo_authorId = nonempty a\<rparr>]"
  by (simp add: insert_op_def nextBoardSeq_def counter_val_def Let_def)

lemma insert_op_counters:
  "counters (insert_op b a k w d) = (counters d)(counter_key b \<mapsto> counter_val d b + 1)"
  by (simp add: insert_op_def nextBoardSeq_def counter_val_def Let_def)

lemma insert_op_rest:
  "snapshots (insert_op b a k w d) = snapshots d"
  "boards (insert_op b a k w d) = boards d"
  "users (insert_op b a k w d) = users d"
  by (simp_all add: insert_op_def nextBoardSeq_def Let_def)

lemma ops_loop_Cons:
  "ops_loop e b a i (w # ws) d =
     (case resolve_opId e i w of
        Inl err \<Rightarrow> Inl err
      | Inr k \<Rightarrow>
          (case findOne_op d (objectId b) k of
             Some ex \<Rightarrow> ops_loop e b a (Suc i) ws d
           | None \<Rightarrow> if create_fails e i then Inl StorageError
                     else ops_loop e b a (Suc i) ws (insert_op b a k w d)))"
  by (simp add: insert_op_def nextBoardSeq_def Let_def split: sum.splits option.splits)

lemma ops_loop_preserves:
  assumes "ops_loop e b a i ws d = Inr d'"
    and "P d"
    and "\<And>d k w. P d \<Longrightarrow> findOne_op d (objectId b) k = None \<Longrightarrow> P (insert_op b a k w d)"
  shows "P d'"
  using assms(1,2)
proof (induction ws arbitrary: i d)
  case Nil
  then show ?case by simp
next
  case (Cons w ws)
  show ?case
  proof (cases "resolve_opId e i w")
    case (Inl err)
    with Cons.prems show ?thesis by (simp add: ops_loop_Cons del: ops_loop.simps)
  next
    case (Inr k)
    show ?thesis
    proof (cases "findOne_op d (objectId b) k")
      case None
      with Inr Cons.prems have nf: "\<not> create_fails e i"
        and rec: "ops_loop e b a (Suc i) ws (insert_op b a k w d) = Inr d'"
        by (auto simp add: ops_loop_Cons simp del: ops_loop.simps split: if_splits)
      from Cons.IH[OF rec assms(3)[OF Cons.prems(2) None]] show ?thesis .
    next
      case (Some ex)
      with Inr Cons.prems have "ops_loop e b a (Suc i) ws d = Inr d'"
        by (simp add: ops_loop_Cons del: ops_loop.simps)
      from Cons.IH[OF this Cons.prems(2)] show ?thesis .
    qed
  qed
qed

lemma find_append_list:
  "find P (xs @ ys) = (case find P xs of Some x \<Rightarrow> Some x | None \<Rightarrow> find P ys)"
  by (induction xs) auto



lemma resolve_client_key:
  "client_key w = Some k \<Longrightarrow> resolve_opId e i w = Inr k"
  by (cases w) simp_all



subsection \<open>The insert loop of the restore tool\<close>


lemma findOne_op_append:
  "findOne_op (d\<lparr>boardops := boardops d @ [r]\<rparr>) b k =
     (case findOne_op d b k of
        Some x \<Rightarrow> Some x
      | None \<Rightarrow> if bo_boardId r = b \<and> bo_opId r = k then Some r else None)"
  by (simp add: findOne_op_def find_append_list split: option.splits)

lemma restore_ops_rest:
  assumes "restore_ops e b i its d mx = (d', mx')"
  shows "counters d' = counters d \<and> snapshots d' = snapshots d \<and> boards d' = boards d \<and> users d' = users d \<and> mx \<le> mx'"
  using assms
proof (induction its arbitrary: i d mx)
  case Nil
  then show ?case by simp
next
  case (Cons it its)
  show ?case
  proof (cases "findOne_restore d b (x_opId it)")
    case (Some ex)
    with Cons.prems have "restore_ops e b (Suc i) its d (max mx (seq_or0 (bo_seq ex))) = (d', mx')" by simp
    from Cons.IH[OF this] show ?thesis by simp
  next
    case None
    show ?thesis
    proof (cases "create_fails e i")
      case True
      with None Cons.prems have "restore_ops e b (Suc i) its d mx = (d', mx')" by simp
      from Cons.IH[OF this] show ?thesis .
    next
      case False
      with None Cons.prems have "restore_ops e b (Suc i) its (d\<lparr>boardops := boardops d @ [restored_op e b i it]\<rparr>)
         (max mx (seq_or0 (bo_seq (restored_op e b i it)))) = (d', mx')" by (simp add: Let_def)
      from Cons.IH[OF this] show ?thesis by simp
    qed
  qed
qed





lemma restore_board_rest:
  "boardops (snd (restore_board e a d)) = boardops d"
  "counters (snd (restore_board e a d)) = counters d"
  "snapshots (snd (restore_board e a d)) = snapshots d"
  by (simp_all add: restore_board_def Let_def split: option.splits)

lemma restore_snapshot_rest:
  "boardops (restore_snapshot e b a d) = boardops d"
  "counters (restore_snapshot e b a d) = counters d"
  "boards (restore_snapshot e b a d) = boards d"
  by (simp_all add: restore_snapshot_def split: option.splits)

lemma reconcile_counter_rest:
  "boardops (reconcile_counter b mx d) = boardops d"
  "snapshots (reconcile_counter b mx d) = snapshots d"
  "boards (reconcile_counter b mx d) = boards d"
  by (simp_all add: reconcile_counter_def Let_def split: option.splits)

lemma reconcile_counter_counters:
  "counters (reconcile_counter b mx d) =
     (counters d)(counter_key b \<mapsto> (case counters d (counter_key b) of None \<Rightarrow> mx | Some c \<Rightarrow> max c mx))"
  by (auto simp add: reconcile_counter_def Let_def max_def split: option.splits)


lemma restore_unfold:
  "restore e a d =
     (let b = fst (restore_board e a d);
          d2 = restore_snapshot e b a (snd (restore_board e a d));
          r = restore_ops e b 0 (a_ops a) d2 0
      in reconcile_counter b (snd r) (fst r))"
  by (simp add: restore_def Let_def split: prod.splits)


subsection \<open>Idempotent append\<close>

lemma checkpoint_rest:
  "boardops (checkpoint e b d) = boardops d"
  "counters (checkpoint e b d) = counters d"
  "boards (checkpoint e b d) = boards d"
  "users (checkpoint e b d) = users d"
  by (simp_all add: checkpoint_def split: option.splits)

text \<open>What a committed board:ops submission did.\<close>

lemma board_ops_ok:
  assumes "board_ops e sock p s = (Ack_ok, s1)"
  obtains b dl where "nonempty (sock_boardId sock) = Some b"
    and "sock_role sock \<in> set [''owner'', ''editor'']"
    and "ops_loop e b (sock_userId sock) 0 (p_ops p) (sdb s) = Inr dl"
    and "sdb s1 = checkpoint e b dl"
    and "\<not> commit_fails e"
proof -
  from assms obtain b where b: "nonempty (sock_boardId sock) = Some b"
    by (cases "nonempty (sock_boardId sock)") (auto simp: board_ops_def)
  from assms b have role: "sock_role sock \<in> set [''owner'', ''editor'']"
    by (auto simp: board_ops_def split: if_splits)
  from assms b role obtain dl where "ops_loop e b (sock_userId sock) 0 (p_ops p) (sdb s) = Inr dl"
    and "sdb s1 = checkpoint e b dl" and "\<not> commit_fails e"
    by (auto simp: board_ops_def withTransaction_def txn_body_def Let_def
             split: sum.splits if_splits prod.splits)
  with b role that show ?thesis by blast
qed



lemmas demo_defs = demo_env_def demo_uuid_def never_def demo_hash_def demo_board_def demo_db_def
  demo_server_def demo_sock_def keyed_def plain_def x1x2_def art_x1x2_def empty_db_def

lemmas model_defs = board_ops_def withTransaction_def txn_body_def checkpoint_def countOps_def
  countSnapshots_def findOne_op_def nextBoardSeq_def counter_key_def enqueuePersist_def nonempty_def
  objectId_def toLowerCase_def lower_char_def Let_def

lemma objectId_b1: "objectId ''b1'' = ''b1''"
  by (simp add: objectId_def toLowerCase_def lower_char_def)

lemmas restore_defs = restore_def restore_board_def restore_snapshot_def findOne_restore_def
  restored_op_def reconcile_counter_def seq_or0_def merge_members_def restore_payload_def

subsection \<open>Restore idempotence\<close>

lemma findOne_op_None_iff: "findOne_op d b k = None \<longleftrightarrow> (b, k) \<notin> set (op_keys d)"
  by (auto simp: findOne_op_def op_keys_def find_None_iff)




text \<open>What the export route writes into the file.\<close>

lemma export_board_wellformed:
  assumes "export_board e boardId me d = Inr a"
    and "boardId \<noteq> []"
    and "\<forall>r \<in> set (boardops d). bo_opId r \<noteq> []"
  shows "nonempty (a_boardId a) = Some boardId \<and> (\<forall>it \<in> set (a_ops a). nonempty (x_opId it) \<noteq> None)"
proof -
  from assms(1) have a: "a_boardId a = Some boardId"
    and ops: "a_ops a = map export_op (sort_key bo_seq (filter (\<lambda>r. bo_boardId r = boardId) (boardops d)))"
    by (auto simp: export_board_def Let_def split: option.splits if_splits)
  have "nonempty (x_opId it) \<noteq> None" if "it \<in> set (a_ops a)" for it
  proof -
    from that obtain r where "r \<in> set (boardops d)" "it = export_op r"
      unfolding ops by auto
    with assms(3) show ?thesis by (simp add: export_op_def nonempty_def)
  qed
  with a assms(2) show ?thesis by (simp add: nonempty_def)
qed



subsection \<open>Counter reconciliation\<close>

lemma max_seq_Max: "max_seq ns = Max (insert 0 (set ns))"
proof (induction ns)
  case Nil
  then show ?case by (simp add: max_seq_def)
next
  case (Cons n ns)
  have "max_seq (n # ns) = max n (max_seq ns)" by (simp add: max_seq_def)
  also have "\<dots> = max n (Max (insert 0 (set ns)))" by (simp add: Cons.IH)
  also have "\<dots> = Max (insert n (insert 0 (set ns)))" by simp
  finally show ?case by (simp add: insert_commute)
qed

lemma Max_insert_max:
  "finite S \<Longrightarrow> Max (insert (max a b) S) = Max (insert a (insert b S))"
  by (cases "S = {}") (simp_all add: max.assoc)

lemma set_map_filter: "set (List.map_filter f xs) = {y. \<exists>x \<in> set xs. f x = Some y}"
  by (induction xs) (auto split: option.splits)

lemma findOne_restore_append:
  "findOne_restore (d\<lparr>boardops := boardops d @ [c]\<rparr>) b k =
     (case findOne_restore d b k of
        Some r \<Rightarrow> Some r
      | None \<Rightarrow> (case k of None \<Rightarrow> None
                 | Some opId \<Rightarrow> if bo_boardId c = b \<and> bo_opId c = opId then Some c else None))"
  by (simp add: findOne_restore_def findOne_op_append split: option.splits)

lemma findOne_restore_mono:
  "findOne_restore d b k = Some r \<Longrightarrow> findOne_restore (d\<lparr>boardops := boardops d @ [c]\<rparr>) b k = Some r"
  by (simp add: findOne_restore_append)

lemma findOne_restore_new:
  "findOne_restore (d\<lparr>boardops := boardops d @ [c]\<rparr>) b k = Some r \<Longrightarrow>
     r = c \<or> findOne_restore d b k = Some r"
  by (auto simp add: findOne_restore_append split: option.splits if_splits)

lemma matched_after_insert:
  "set (List.map_filter (\<lambda>it. findOne_restore d b (x_opId it)) its)
     \<subseteq> set (List.map_filter (\<lambda>it. findOne_restore (d\<lparr>boardops := boardops d @ [c]\<rparr>) b (x_opId it)) its)"
  "set (List.map_filter (\<lambda>it. findOne_restore (d\<lparr>boardops := boardops d @ [c]\<rparr>) b (x_opId it)) its)
     \<subseteq> insert c (set (List.map_filter (\<lambda>it. findOne_restore d b (x_opId it)) its))"
  unfolding set_map_filter
  using findOne_restore_mono[of d b _ _ c] findOne_restore_new[of d c b] by blast+

lemma restore_ops_max:
  assumes "restore_ops e b i its d mx = (d', mx')"
  shows "\<exists>new. boardops d' = boardops d @ new \<and>
           mx' = Max (insert mx ((\<lambda>r. seq_or0 (bo_seq r)) `
                   (set new \<union> set (List.map_filter (\<lambda>it. findOne_restore d b (x_opId it)) its))))"
  using assms
proof (induction its arbitrary: i d mx)
  case Nil
  then show ?case by (simp add: map_filter_simps)
next
  case (Cons x xs)
  let ?f = "\<lambda>r. seq_or0 (bo_seq r)"
  let ?M = "\<lambda>d its. set (List.map_filter (\<lambda>it. findOne_restore d b (x_opId it)) its)"
  show ?case
  proof (cases "findOne_restore d b (x_opId x)")
    case (Some ex)
    with Cons.prems have "restore_ops e b (Suc i) xs d (max mx (?f ex)) = (d', mx')" by simp
    from Cons.IH[OF this] obtain new where n: "boardops d' = boardops d @ new"
      and m: "mx' = Max (insert (max mx (?f ex)) (?f ` (set new \<union> ?M d xs)))" by blast
    have "?M d (x # xs) = insert ex (?M d xs)"
      using Some by (simp add: map_filter_simps)
    then have "insert mx (?f ` (set new \<union> ?M d (x # xs))) = insert mx (insert (?f ex) (?f ` (set new \<union> ?M d xs)))"
      by auto
    with m have "mx' = Max (insert mx (?f ` (set new \<union> ?M d (x # xs))))"
      by (simp only: Max_insert_max[OF finite_imageI[OF finite_UnI[OF finite_set finite_set]]])
    with n show ?thesis by blast
  next
    case None
    then have M0: "?M d (x # xs) = ?M d xs" by (simp add: map_filter_simps)
    show ?thesis
    proof (cases "create_fails e i")
      case True
      with None Cons.prems have "restore_ops e b (Suc i) xs d mx = (d', mx')" by simp
      from Cons.IH[OF this] M0 show ?thesis by simp
    next
      case False
      define c where "c = restored_op e b i x"
      define d1 where "d1 = d\<lparr>boardops := boardops d @ [c]\<rparr>"
      from False None Cons.prems
      have "restore_ops e b (Suc i) xs d1 (max mx (?f c)) = (d', mx')"
        by (simp add: Let_def d1_def c_def)
      from Cons.IH[OF this] obtain new where n: "boardops d' = boardops d1 @ new"
        and m: "mx' = Max (insert (max mx (?f c)) (?f ` (set new \<union> ?M d1 xs)))" by blast
      have n': "boardops d' = boardops d @ (c # new)" using n by (simp add: d1_def)
      have sub: "?M d xs \<subseteq> ?M d1 xs" "?M d1 xs \<subseteq> insert c (?M d xs)"
        unfolding d1_def by (rule matched_after_insert)+
      have "insert mx (insert (?f c) (?f ` (set new \<union> ?M d1 xs)))
            = insert mx (?f ` (set (c # new) \<union> ?M d (x # xs)))"
        unfolding M0 using sub by auto
      with m have "mx' = Max (insert mx (?f ` (set (c # new) \<union> ?M d (x # xs))))"
        by (simp only: Max_insert_max[OF finite_imageI[OF finite_UnI[OF finite_set finite_set]]])
      with n' show ?thesis by blast
    qed
  qed
qed

lemma findOne_restore_cong:
  "boardops d = boardops d' \<Longrightarrow> findOne_restore d b k = findOne_restore d' b k"
  by (cases k) (simp_all add: findOne_restore_def findOne_op_def)

lemma restore_counters:
  "counters (restore e a d) =
     (counters d)(counter_key (target_board e a d) \<mapsto>
        (case counters d (counter_key (target_board e a d)) of
           None \<Rightarrow> max_seq (restored_seqs e a d)
         | Some c \<Rightarrow> max c (max_seq (restored_seqs e a d))))"
proof -
  define b where "b = target_board e a d"
  define d2 where "d2 = restore_snapshot e b a (snd (restore_board e a d))"
  obtain d3 mx where loop: "restore_ops e b 0 (a_ops a) d2 0 = (d3, mx)"
    by (cases "restore_ops e b 0 (a_ops a) d2 0")
  have bo2: "boardops d2 = boardops d" and co2: "counters d2 = counters d"
    by (simp_all add: d2_def restore_snapshot_rest restore_board_rest)
  have r: "restore e a d = reconcile_counter b mx d3"
    using loop by (simp add: restore_unfold d2_def b_def target_board_def)
  from restore_ops_max[OF loop] obtain new where n: "boardops d3 = boardops d2 @ new"
    and m: "mx = Max (insert 0 ((\<lambda>r. seq_or0 (bo_seq r)) `
              (set new \<union> set (List.map_filter (\<lambda>it. findOne_restore d2 b (x_opId it)) (a_ops a)))))"
    by blast
  have ins: "inserted_records e a d = new"
    by (simp add: inserted_records_def r reconcile_counter_rest n bo2)
  have feq: "findOne_restore d2 b k = findOne_restore d b k" for k
    by (rule findOne_restore_cong[OF bo2])
  have mat: "matched_records e a d = List.map_filter (\<lambda>it. findOne_restore d2 b (x_opId it)) (a_ops a)"
    unfolding matched_records_def b_def[symmetric] by (simp add: feq)
  have mx: "mx = max_seq (restored_seqs e a d)"
    unfolding m max_seq_Max restored_seqs_def ins mat by (simp add: image_Un)
  have c3: "counters d3 = counters d"
    using restore_ops_rest[OF loop] co2 by simp
  have "counters (reconcile_counter b mx d3) =
     (counters d)(counter_key b \<mapsto> (case counters d (counter_key b) of None \<Rightarrow> mx | Some c \<Rightarrow> max c mx))"
    by (simp add: reconcile_counter_counters c3)
  then show ?thesis
    unfolding r b_def[symmetric] mx[symmetric] .
qed

text \<open>
  Claim C8 (counter reconciliation is upward-only). The operation records a restore
  run covers are the records it inserted and the stored records its file's operations
  matched. After the run the counter of the target board is at least the sequence
  number of each of them; it equals their maximum when the counter was missing or
  smaller before the run; and every counter that existed before the run still exists
  with a value that is not smaller. This holds whatever inserts fail.
\<close>

theorem counter_reconciliation:
  "(\<forall>n \<in> set (restored_seqs e a d). n \<le> counter_val (restore e a d) (target_board e a d)) \<and>
   (counters d (counter_key (target_board e a d)) = None \<or>
    counter_val d (target_board e a d) < max_seq (restored_seqs e a d) \<longrightarrow>
      counters (restore e a d) (counter_key (target_board e a d)) = Some (max_seq (restored_seqs e a d))) \<and>
   (\<forall>k c. counters d k = Some c \<longrightarrow> (\<exists>c'. counters (restore e a d) k = Some c' \<and> c \<le> c'))"
proof (intro conjI)
  let ?b = "target_board e a d"
  let ?M = "max_seq (restored_seqs e a d)"
  note rc = restore_counters[of e a d]
  have ge: "?M \<le> counter_val (restore e a d) ?b"
    by (simp add: counter_val_def rc split: option.splits)
  show "\<forall>n \<in> set (restored_seqs e a d). n \<le> counter_val (restore e a d) ?b"
  proof
    fix n assume "n \<in> set (restored_seqs e a d)"
    then have "n \<le> ?M" by (simp add: max_seq_Max)
    with ge show "n \<le> counter_val (restore e a d) ?b" by simp
  qed
  show "counters d (counter_key ?b) = None \<or> counter_val d ?b < ?M \<longrightarrow>
      counters (restore e a d) (counter_key ?b) = Some ?M"
    by (auto simp add: rc counter_val_def split: option.splits)
  show "\<forall>k c. counters d k = Some c \<longrightarrow> (\<exists>c'. counters (restore e a d) k = Some c' \<and> c \<le> c')"
    by (simp add: rc)
qed

lemmas cover_defs = restored_seqs_def inserted_records_def matched_records_def target_board_def
  max_seq_def demo_export_def demo_db7_def



theorem counter_reconciliation_witness:
  "restored_seqs demo_env demo_export empty_db = [1, 2] \<and>
   counters empty_db (counter_key (target_board demo_env demo_export empty_db)) = None \<and>
   counters (restore demo_env demo_export empty_db) (counter_key ''b1'') = Some 2 \<and>
   counters demo_db7 (counter_key ''b1'') = Some 7 \<and>
   counters (restore demo_env demo_export demo_db7) (counter_key ''b1'') = Some 7"
proof -
  have v1: "restored_seqs demo_env demo_export empty_db = [1, 2]"
    by (simp add: cover_defs demo_defs model_defs restore_defs)
  have v2: "target_board demo_env demo_export empty_db = ''b1''"
    by (simp add: cover_defs demo_defs model_defs restore_defs)
  have v3: "counters empty_db (counter_key ''b1'') = None"
    by (simp add: empty_db_def)
  have v4: "counters demo_db7 (counter_key ''b1'') = Some 7"
    by (simp add: cover_defs demo_defs)
  have v5: "counters (restore demo_env demo_export demo_db7) (counter_key ''b1'') = Some 7"
    by (simp add: cover_defs demo_defs model_defs restore_defs)
  from counter_reconciliation[of demo_env demo_export empty_db]
    counter_reconciliation[of demo_env demo_export demo_db7] v1 v2 v3 v4 v5
  show ?thesis by (simp add: max_seq_def)
qed

lemmas demo2_defs = guest_sock_def x1null_def fails_at1_def faulty_env_def later_uuid_def
  later_env_def one_plain_def

subsection \<open>Read-only enforcement\<close>

lemma room_join_ok:
  assumes "room_join boardId token sock d = (Ack_ok, sock')"
  shows "sock_boardId sock' = Some boardId \<and> boards d (objectId boardId) \<noteq> None \<and>
         sock_userId sock' = sock_userId sock \<and>
         (nonempty (sock_userId sock) = None \<longrightarrow> sock_role sock' = ''viewer'')"
  using assms
  by (auto simp: room_join_def Let_def split: option.splits if_splits)

text \<open>
  Claim C6 (read-only enforcement). A \<^verbatim>\<open>board:ops\<close> submission from a socket whose
  role is neither \<^verbatim>\<open>owner\<close> nor \<^verbatim>\<open>editor\<close> leaves the whole server state as it
  was: nothing is emitted to the room, nothing is put into the persistence buffer and
  nothing is written to the database. The acknowledgment the handler passes to the
  client's callback is the error \<^verbatim>\<open>read-only\<close> for a socket that has joined a room
  (\<open>room_join_ok\<close>: a joined socket has its board id set), and \<^verbatim>\<open>no-room\<close> for one
  that has not.
\<close>

theorem read_only_enforcement:
  assumes "sock_role sock \<notin> set [''owner'', ''editor'']"
  shows "snd (board_ops e sock p s) = s \<and>
         fst (board_ops e sock p s) =
           (if nonempty (sock_boardId sock) = None then Ack_error ''no-room''
            else Ack_error ''read-only'')"
  using assms by (simp add: board_ops_def split: option.splits)

theorem read_only_enforcement_witness:
  "room_join ''b1'' None guest_sock demo_db
     = (Ack_ok, guest_sock\<lparr>sock_boardId := Some ''b1'', sock_role := ''viewer''\<rparr>) \<and>
   board_ops demo_env (guest_sock\<lparr>sock_boardId := Some ''b1'', sock_role := ''viewer''\<rparr>) x1x2 demo_server
     = (Ack_error ''read-only'', demo_server)"
proof -
  have j: "room_join ''b1'' None guest_sock demo_db
     = (Ack_ok, guest_sock\<lparr>sock_boardId := Some ''b1'', sock_role := ''viewer''\<rparr>)"
    by (simp add: room_join_def demo_defs demo2_defs nonempty_def objectId_def toLowerCase_def
        lower_char_def)
  have h: "sock_role (guest_sock\<lparr>sock_boardId := Some ''b1'', sock_role := ''viewer''\<rparr>)
             \<notin> set [''owner'', ''editor'']"
    by simp
  from read_only_enforcement[OF h, of demo_env x1x2 demo_server] j
  show ?thesis by (simp add: prod_eq_iff nonempty_def)
qed

subsection \<open>Atomic batch append\<close>

lemma board_ops_cases:
  "board_ops e sock p s =
     (case nonempty (sock_boardId sock) of
        None \<Rightarrow> (Ack_error ''no-room'', s)
      | Some b \<Rightarrow>
          if sock_role sock \<notin> set [''owner'', ''editor''] then (Ack_error ''read-only'', s)
          else
            (let s2 = s\<lparr>emitted := emitted s @
                        [\<lparr>ev_room = b, ev_sender = sock_id sock,
                          ev_ops = p_ops p, ev_snapshot = p_snapshot p\<rparr>],
                      buffers := enqueuePersist b (p_ops p) (p_snapshot p) (buffers s)\<rparr>
             in case txn_body e b (sock_userId sock) (p_ops p) (sdb s) of
                  Inl err \<Rightarrow> (Ack_error ''persist failed'', s2)
                | Inr d' \<Rightarrow> if commit_fails e then (Ack_error ''persist failed'', s2)
                            else (Ack_ok, s2\<lparr>sdb := d'\<rparr>)))"
  by (simp add: board_ops_def withTransaction_def Let_def split: option.splits sum.splits)

lemma board_ops_not_ok:
  "fst (board_ops e sock p s) \<noteq> Ack_ok \<longrightarrow> sdb (snd (board_ops e sock p s)) = sdb s"
  by (simp add: board_ops_cases Let_def split: option.splits sum.splits)

text \<open>
  Claim C5 (atomic batch append). All reads and writes of one submitted batch run in
  one transaction: when the submission is not acknowledged with \<^verbatim>\<open>ok\<close> (the body or
  the commit threw), the database is exactly as before the submission, so no
  operation record of the batch is stored and no sequence number is consumed; when
  it is acknowledged with \<^verbatim>\<open>ok\<close>, the database is the result of the complete
  transaction body. The broadcast and the buffering precede the transaction and are
  not undone.
\<close>

theorem atomic_batch_append:
  "(fst (board_ops e sock p s) \<noteq> Ack_ok \<longrightarrow> sdb (snd (board_ops e sock p s)) = sdb s) \<and>
   (fst (board_ops e sock p s) = Ack_ok \<longrightarrow>
      (\<exists>b. nonempty (sock_boardId sock) = Some b \<and>
           txn_body e b (sock_userId sock) (p_ops p) (sdb s) = Inr (sdb (snd (board_ops e sock p s)))))"
  by (simp add: board_ops_cases Let_def split: option.splits sum.splits)

theorem atomic_batch_append_witness:
  "(case ops_loop demo_env ''b1'' (Some ''u1'') 0 [keyed ''x1''] demo_db of
      Inl err \<Rightarrow> False
    | Inr d \<Rightarrow> counters d (counter_key ''b1'') = Some 1 \<and> map bo_opId (boardops d) = [''x1'']) \<and>
   board_ops demo_env demo_sock x1null demo_server \<noteq> (Ack_ok, demo_server) \<and>
   fst (board_ops demo_env demo_sock x1null demo_server) = Ack_error ''persist failed'' \<and>
   sdb (snd (board_ops demo_env demo_sock x1null demo_server)) = demo_db \<and>
   fst (board_ops faulty_env demo_sock x1x2 demo_server) = Ack_error ''persist failed'' \<and>
   sdb (snd (board_ops faulty_env demo_sock x1x2 demo_server)) = demo_db \<and>
   fst (board_ops demo_env demo_sock x1x2 demo_server) = Ack_ok \<and>
   txn_body demo_env ''b1'' (Some ''u1'') (p_ops x1x2) demo_db
     = Inr (sdb (snd (board_ops demo_env demo_sock x1x2 demo_server)))"
proof -
  have v0: "(case ops_loop demo_env ''b1'' (Some ''u1'') 0 [keyed ''x1''] demo_db of
      Inl err \<Rightarrow> False
    | Inr d \<Rightarrow> counters d (counter_key ''b1'') = Some 1 \<and> map bo_opId (boardops d) = [''x1''])"
    by (simp add: demo_defs model_defs)
  have v1: "fst (board_ops demo_env demo_sock x1null demo_server) = Ack_error ''persist failed''"
    by (simp add: demo_defs demo2_defs model_defs)
  have v2: "fst (board_ops faulty_env demo_sock x1x2 demo_server) = Ack_error ''persist failed''"
    by (simp add: demo_defs demo2_defs model_defs)
  have v3: "fst (board_ops demo_env demo_sock x1x2 demo_server) = Ack_ok"
    by (simp add: demo_defs model_defs)
  have v4: "sdb demo_server = demo_db" "nonempty (sock_boardId demo_sock) = Some ''b1''"
    "sock_userId demo_sock = Some ''u1''"
    by (simp_all add: demo_server_def demo_sock_def nonempty_def)
  from atomic_batch_append[of demo_env demo_sock x1null demo_server]
    atomic_batch_append[of faulty_env demo_sock x1x2 demo_server]
    atomic_batch_append[of demo_env demo_sock x1x2 demo_server]
    v0 v1 v2 v3 v4
  show ?thesis by auto
qed

subsection \<open>Operations without a client key\<close>

lemma resolve_no_key:
  "client_key w = None \<Longrightarrow> w \<noteq> WNull \<Longrightarrow> resolve_opId e i w = Inr (uuid e i)"
  by (cases w) simp_all

lemma single_insert:
  assumes "nonempty (sock_boardId sock) = Some b"
    and "sock_role sock \<in> set [''owner'', ''editor'']"
    and "p_ops p = [w]" and "client_key w = None" and "w \<noteq> WNull"
    and "\<not> create_fails e 0" and "\<not> commit_fails e"
    and "findOne_op (sdb s) (objectId b) (uuid e 0) = None"
  shows "fst (board_ops e sock p s) = Ack_ok \<and>
         boardops (sdb (snd (board_ops e sock p s))) = boardops (sdb s) @
           [\<lparr>bo_boardId = objectId b, bo_seq = Some (counter_val (sdb s) b + 1), bo_opId = uuid e 0,
             bo_op = payload_of w, bo_authorId = nonempty (sock_userId sock)\<rparr>] \<and>
         counter_val (sdb (snd (board_ops e sock p s))) b = counter_val (sdb s) b + 1"
proof -
  have "ops_loop e b (sock_userId sock) 0 [w] (sdb s) = Inr (insert_op b (sock_userId sock) (uuid e 0) w (sdb s))"
    using assms by (simp add: ops_loop_Cons resolve_no_key del: ops_loop.simps(2))
  then have "txn_body e b (sock_userId sock) (p_ops p) (sdb s)
      = Inr (checkpoint e b (insert_op b (sock_userId sock) (uuid e 0) w (sdb s)))"
    using assms(3) by (simp add: txn_body_def)
  with assms(1,2,7) show ?thesis
    by (simp add: board_ops_cases Let_def checkpoint_rest insert_op_boardops insert_op_counters
        counter_val_def)
qed

text \<open>
  Claim C10 (operations without a client key). An element of a batch that is not
  \<^verbatim>\<open>null\<close> and carries neither \<^verbatim>\<open>opId\<close> nor \<^verbatim>\<open>op.id\<close> gets the value of
  \<^verbatim>\<open>crypto.randomUUID()\<close> as its key, at every position of a batch, and is inserted
  when that value is not yet stored for the board. Submitting the same element twice
  therefore stores two records with different keys and consecutive sequence numbers.
  That a random UUID differs from the stored keys and from the UUID of the earlier
  call is a hypothesis.
\<close>

theorem uuid_fallback:
  assumes "client_key w = None" and "w \<noteq> WNull"
    and "nonempty (sock_boardId sock) = Some b"
    and "sock_role sock \<in> set [''owner'', ''editor'']"
    and "p_ops p = [w]"
    and "\<not> create_fails ea 0" and "\<not> commit_fails ea"
    and "\<not> create_fails eb 0" and "\<not> commit_fails eb"
    and "findOne_op (sdb s) (objectId b) (uuid ea 0) = None"
    and "findOne_op (sdb s) (objectId b) (uuid eb 0) = None"
    and "uuid eb 0 \<noteq> uuid ea 0"
  shows "resolve_opId ea i w = Inr (uuid ea i) \<and>
         (findOne_op d (objectId b) (uuid ea i) = None \<and> \<not> create_fails ea i \<longrightarrow>
            ops_loop ea b a i (w # ws) d = ops_loop ea b a (Suc i) ws (insert_op b a (uuid ea i) w d)) \<and>
         boardops (sdb (snd (board_ops eb sock p (snd (board_ops ea sock p s))))) =
           boardops (sdb s) @
             [\<lparr>bo_boardId = objectId b, bo_seq = Some (counter_val (sdb s) b + 1), bo_opId = uuid ea 0,
               bo_op = payload_of w, bo_authorId = nonempty (sock_userId sock)\<rparr>,
              \<lparr>bo_boardId = objectId b, bo_seq = Some (counter_val (sdb s) b + 2), bo_opId = uuid eb 0,
               bo_op = payload_of w, bo_authorId = nonempty (sock_userId sock)\<rparr>]"
proof -
  let ?s1 = "snd (board_ops ea sock p s)"
  note one = single_insert[OF assms(3,4,5,1,2)]
  from one[OF assms(6,7,10)]
  have b1: "boardops (sdb ?s1) = boardops (sdb s) @
           [\<lparr>bo_boardId = objectId b, bo_seq = Some (counter_val (sdb s) b + 1), bo_opId = uuid ea 0,
             bo_op = payload_of w, bo_authorId = nonempty (sock_userId sock)\<rparr>]"
    and c1: "counter_val (sdb ?s1) b = counter_val (sdb s) b + 1" by blast+
  have fresh: "findOne_op (sdb ?s1) (objectId b) (uuid eb 0) = None"
    using assms(11,12) by (simp add: findOne_op_def b1 find_append_list)
  from one[OF assms(8,9) fresh] b1 c1
  have "boardops (sdb (snd (board_ops eb sock p ?s1))) =
           boardops (sdb s) @
             [\<lparr>bo_boardId = objectId b, bo_seq = Some (counter_val (sdb s) b + 1), bo_opId = uuid ea 0,
               bo_op = payload_of w, bo_authorId = nonempty (sock_userId sock)\<rparr>,
              \<lparr>bo_boardId = objectId b, bo_seq = Some (counter_val (sdb s) b + 2), bo_opId = uuid eb 0,
               bo_op = payload_of w, bo_authorId = nonempty (sock_userId sock)\<rparr>]"
    by simp
  moreover have "findOne_op d (objectId b) (uuid ea i) = None \<and> \<not> create_fails ea i \<longrightarrow>
      ops_loop ea b a i (w # ws) d = ops_loop ea b a (Suc i) ws (insert_op b a (uuid ea i) w d)"
    by (simp add: ops_loop_Cons resolve_no_key[OF assms(1,2)] del: ops_loop.simps)
  ultimately show ?thesis using resolve_no_key[OF assms(1,2)] by simp
qed

theorem uuid_fallback_witness:
  "client_key (plain ''c1'') = None \<and>
   findOne_op demo_db ''b1'' (uuid demo_env 0) = None \<and> \<not> create_fails demo_env 0 \<and>
   ops_loop demo_env ''b1'' (Some ''u1'') 0 [plain ''c1''] demo_db
     = Inr (insert_op ''b1'' (Some ''u1'') (uuid demo_env 0) (plain ''c1'') demo_db) \<and>
   map bo_opId (boardops (sdb (snd (board_ops later_env demo_sock one_plain
                   (snd (board_ops demo_env demo_sock one_plain demo_server))))))
     = [''uuid-'', ''uuid+''] \<and>
   map bo_seq (boardops (sdb (snd (board_ops later_env demo_sock one_plain
                   (snd (board_ops demo_env demo_sock one_plain demo_server))))))
     = [Some 1, Some 2]"
proof -
  have h: "client_key (plain ''c1'') = None" "plain ''c1'' \<noteq> WNull"
    "nonempty (sock_boardId demo_sock) = Some ''b1''"
    "sock_role demo_sock \<in> set [''owner'', ''editor'']"
    "p_ops one_plain = [plain ''c1'']"
    "\<not> create_fails demo_env 0" "\<not> commit_fails demo_env"
    "\<not> create_fails later_env 0" "\<not> commit_fails later_env"
    "findOne_op (sdb demo_server) (objectId ''b1'') (uuid demo_env 0) = None"
    "findOne_op (sdb demo_server) (objectId ''b1'') (uuid later_env 0) = None"
    "uuid later_env 0 \<noteq> uuid demo_env 0"
    by (simp_all add: demo_defs demo2_defs nonempty_def findOne_op_def)
  have u: "uuid demo_env 0 = ''uuid-''" "uuid later_env 0 = ''uuid+''"
    "counter_val (sdb demo_server) ''b1'' = 0" "boardops (sdb demo_server) = []"
    by (simp_all add: demo_defs demo2_defs counter_val_def)
  have f: "findOne_op demo_db ''b1'' (uuid demo_env 0) = None"
    by (simp add: demo_defs findOne_op_def)
  from uuid_fallback[OF h, of 0 demo_db "Some ''u1''" "[]"] h(1,6) u f show ?thesis
    by (simp add: objectId_b1 del: ops_loop.simps(2))
qed

subsection \<open>Owner invariant\<close>

lemma find_member_in: "find_member uid ms = Some m \<Longrightarrow> m \<in> set ms"
  by (induction ms) (auto simp: find_member_def split: if_splits)

lemma owner_member_counts:
  "find_member uid ms = Some m \<Longrightarrow> m_role m = ''owner'' \<Longrightarrow> 0 < length (owners ms)"
  using find_member_in[of uid ms m] by (auto simp: owners_def filter_empty_conv)

lemma owners_set_role:
  "find_member uid ms = Some m \<Longrightarrow>
     length (owners (set_role uid r ms)) =
       length (owners ms) - (if m_role m = ''owner'' then 1 else 0) + (if r = ''owner'' then 1 else 0)"
proof (induction ms)
  case Nil
  then show ?case by (simp add: find_member_def)
next
  case (Cons x xs)
  show ?case
  proof (cases "m_userId x = uid")
    case True
    with Cons.prems have "m = x" by (simp add: find_member_def)
    with True show ?thesis by (simp add: owners_def)
  next
    case False
    with Cons.prems have f: "find_member uid xs = Some m" by (simp add: find_member_def)
    have pos: "m_role m = ''owner'' \<Longrightarrow> 0 < length (owners xs)"
      using f by (rule owner_member_counts)
    from Cons.IH[OF f] False pos show ?thesis by (auto simp add: owners_def)
  qed
qed

lemma owners_splice_member:
  "find_member uid ms = Some m \<Longrightarrow>
     length (owners (splice_member uid ms)) =
       length (owners ms) - (if m_role m = ''owner'' then 1 else 0)"
proof (induction ms)
  case Nil
  then show ?case by (simp add: find_member_def)
next
  case (Cons x xs)
  show ?case
  proof (cases "m_userId x = uid")
    case True
    with Cons.prems have "m = x" by (simp add: find_member_def)
    with True show ?thesis by (simp add: owners_def)
  next
    case False
    with Cons.prems have f: "find_member uid xs = Some m" by (simp add: find_member_def)
    have pos: "m_role m = ''owner'' \<Longrightarrow> 0 < length (owners xs)"
      using f by (rule owner_member_counts)
    from Cons.IH[OF f] False pos show ?thesis by (auto simp add: owners_def)
  qed
qed

text \<open>The role-change and removal routes keep an owner.\<close>

lemma patch_member_keeps_owner:
  assumes "patch_member b me uid role d = Inr d'" and "board_owners d b \<noteq> []"
  shows "board_owners d' b \<noteq> []"
proof -
  from assms(1) obtain u r brd m where u: "nonempty uid = Some u" and r: "nonempty role = Some r"
    and brd: "boards d b = Some brd" and m: "find_member u (b_members brd) = Some m"
    and guard: "\<not> (m_role m = ''owner'' \<and> r \<noteq> ''owner'' \<and> length (owners (b_members brd)) \<le> 1)"
    and d': "d' = d\<lparr>boards := (boards d)(b \<mapsto> brd\<lparr>b_members := set_role u r (b_members brd)\<rparr>)\<rparr>"
    by (auto simp: patch_member_def save_board_def split: option.splits if_splits)
  from assms(2) brd have "0 < length (owners (b_members brd))" by (simp add: board_owners_def)
  with guard owners_set_role[OF m, of r] have "0 < length (owners (set_role u r (b_members brd)))"
    by (auto split: if_splits)
  then show ?thesis by (simp add: d' board_owners_def)
qed

lemma delete_member_keeps_owner:
  assumes "delete_member b me target d = Inr d'" and "board_owners d b \<noteq> []"
  shows "board_owners d' b \<noteq> []"
proof -
  from assms(1) obtain brd m where brd: "boards d b = Some brd"
    and m: "find_member target (b_members brd) = Some m"
    and guard: "\<not> (m_role m = ''owner'' \<and> length (owners (b_members brd)) \<le> 1)"
    and d': "d' = d\<lparr>boards := (boards d)(b \<mapsto> brd\<lparr>b_members := splice_member target (b_members brd)\<rparr>)\<rparr>"
    by (auto simp: delete_member_def split: option.splits if_splits)
  from assms(2) brd have "0 < length (owners (b_members brd))" by (simp add: board_owners_def)
  with guard owners_splice_member[OF m] have "0 < length (owners (splice_member target (b_members brd)))"
    by (auto split: if_splits)
  then show ?thesis by (simp add: d' board_owners_def)
qed

text \<open>
  Claim C3 (owner invariant). The role-change and removal routes reject a request
  that would leave a board without an owner (the two lemmas above). The add route,
  which overwrites the role of a user who is already a member, has no such check:
  on the example board, whose only owner is user \<open>u1\<close>, the request of \<open>u1\<close> to add
  the address of \<open>u1\<close> with role \<^verbatim>\<open>viewer\<close> is accepted and the board is left without
  an owner.
\<close>

theorem post_member_demotes_sole_owner:
  "board_owners demo_db ''b1'' = [\<lparr>m_userId = ''u1'', m_role = ''owner''\<rparr>] \<and>
   post_member ''b1'' ''u1'' (Some ''Ann@x.org'') (Some ''viewer'') demo_db
     = Inr (demo_db\<lparr>boards := (boards demo_db)(''b1'' \<mapsto>
              demo_board\<lparr>b_members := [\<lparr>m_userId = ''u1'', m_role = ''viewer''\<rparr>]\<rparr>)\<rparr>) \<and>
   board_owners (demo_db\<lparr>boards := (boards demo_db)(''b1'' \<mapsto>
              demo_board\<lparr>b_members := [\<lparr>m_userId = ''u1'', m_role = ''viewer''\<rparr>]\<rparr>)\<rparr>) ''b1'' = [] \<and>
   patch_member ''b1'' ''u1'' (Some ''u1'') (Some ''viewer'') demo_db
     = Inl (Status 400 ''Must keep at least one owner'') \<and>
   delete_member ''b1'' ''u1'' ''u1'' demo_db = Inl (Status 400 ''Must keep at least one owner'')"
  by (simp add: board_owners_def owners_def post_member_def patch_member_def delete_member_def
      save_board_def valid_role_def find_member_def findUser_def toLowerCase_def lower_char_def
      trim_def is_space_def nonempty_def demo_db_def demo_board_def)

subsection \<open>Idempotent append, for both writers\<close>




subsection \<open>Stored operation ids are never empty\<close>

text \<open>
  Both writers store a truthy \<^verbatim>\<open>opId\<close>: the client's key or the UUID. So the
  hypothesis of \<open>export_board_wellformed\<close> holds in every database that only they have
  written, as long as \<^verbatim>\<open>randomUUID\<close> does not return the empty string.
\<close>

lemma client_key_nonempty: "client_key w = Some k \<Longrightarrow> k \<noteq> []"
  by (cases w) (auto simp: nonempty_def split: option.splits if_splits elim: nested_id.elims)

lemma resolve_opId_nonempty:
  "resolve_opId e i w = Inr k \<Longrightarrow> uuid e i \<noteq> [] \<Longrightarrow> k \<noteq> []"
  by (cases w; cases "client_key w") (auto simp del: client_key.simps dest: client_key_nonempty)

lemma ops_loop_opids_ok:
  assumes "ops_loop e b a i ws d = Inr d'" and "\<forall>j. uuid e j \<noteq> []" and "opids_ok d"
  shows "opids_ok d'"
  using assms(1,3)
proof (induction ws arbitrary: i d)
  case Nil
  then show ?case by simp
next
  case (Cons w ws)
  from Cons.prems(1) obtain k where k: "resolve_opId e i w = Inr k"
    by (cases "resolve_opId e i w") (simp_all add: ops_loop_Cons del: ops_loop.simps)
  with assms(2) have kne: "k \<noteq> []" by (simp add: resolve_opId_nonempty)
  define d1 where "d1 = (case findOne_op d (objectId b) k of Some ex \<Rightarrow> d | None \<Rightarrow> insert_op b a k w d)"
  have rec: "ops_loop e b a (Suc i) ws d1 = Inr d'"
    using Cons.prems(1) k unfolding d1_def
    by (simp add: ops_loop_Cons del: ops_loop.simps split: option.splits if_splits)
  have "opids_ok d1"
    using Cons.prems(2) kne unfolding d1_def
    by (simp add: opids_ok_def insert_op_boardops split: option.splits)
  from Cons.IH[OF rec this] show ?case .
qed

lemma board_ops_opids_ok:
  assumes "\<forall>j. uuid e j \<noteq> []" and "opids_ok (sdb s)"
  shows "opids_ok (sdb (snd (board_ops e sock p s)))"
proof (cases "fst (board_ops e sock p s) = Ack_ok")
  case False
  with board_ops_not_ok[of e sock p s] assms(2) show ?thesis by simp
next
  case True
  then have "board_ops e sock p s = (Ack_ok, snd (board_ops e sock p s))"
    by (simp add: prod_eq_iff)
  then obtain b0 dl where loop: "ops_loop e b0 (sock_userId sock) 0 (p_ops p) (sdb s) = Inr dl"
    and s': "sdb (snd (board_ops e sock p s)) = checkpoint e b0 dl"
    by (rule board_ops_ok)
  from ops_loop_opids_ok[OF loop assms] show ?thesis
    by (simp add: s' opids_ok_def checkpoint_rest)
qed

lemma restore_ops_opids_ok:
  assumes "restore_ops e b i its d mx = (d', mx')" and "\<forall>j. uuid e j \<noteq> []" and "opids_ok d"
  shows "opids_ok d'"
  using assms(1,3)
proof (induction its arbitrary: i d mx)
  case Nil
  then show ?case by simp
next
  case (Cons x xs)
  have ne: "bo_opId (restored_op e b i x) \<noteq> []"
    using assms(2) by (auto simp: restored_op_def nonempty_def split: option.splits if_splits)
  show ?case
  proof (cases "findOne_restore d b (x_opId x)")
    case (Some ex)
    with Cons.prems have "restore_ops e b (Suc i) xs d (max mx (seq_or0 (bo_seq ex))) = (d', mx')" by simp
    from Cons.IH[OF this Cons.prems(2)] show ?thesis .
  next
    case None
    show ?thesis
    proof (cases "create_fails e i")
      case True
      with None Cons.prems have "restore_ops e b (Suc i) xs d mx = (d', mx')" by simp
      from Cons.IH[OF this Cons.prems(2)] show ?thesis .
    next
      case False
      with None Cons.prems have rec: "restore_ops e b (Suc i) xs (d\<lparr>boardops := boardops d @ [restored_op e b i x]\<rparr>)
         (max mx (seq_or0 (bo_seq (restored_op e b i x)))) = (d', mx')" by (simp add: Let_def)
      have "opids_ok (d\<lparr>boardops := boardops d @ [restored_op e b i x]\<rparr>)"
        using Cons.prems(2) ne by (simp add: opids_ok_def)
      from Cons.IH[OF rec this] show ?thesis .
    qed
  qed
qed

lemma restore_opids_ok:
  assumes "\<forall>j. uuid e j \<noteq> []" and "opids_ok d"
  shows "opids_ok (restore e a d)"
proof -
  define b where "b = fst (restore_board e a d)"
  define d2 where "d2 = restore_snapshot e b a (snd (restore_board e a d))"
  obtain d3 mx where loop: "restore_ops e b 0 (a_ops a) d2 0 = (d3, mx)"
    by (cases "restore_ops e b 0 (a_ops a) d2 0")
  have "opids_ok d2"
    using assms(2) by (simp add: opids_ok_def d2_def restore_snapshot_rest restore_board_rest)
  from restore_ops_opids_ok[OF loop assms(1) this] have "opids_ok d3" .
  moreover have "restore e a d = reconcile_counter b mx d3"
    using loop by (simp add: restore_unfold d2_def b_def)
  ultimately show ?thesis by (simp add: opids_ok_def reconcile_counter_rest)
qed




subsection \<open>Checkpoint cadence\<close>

lemma op_keys_insert_op: "op_keys (insert_op b a k w d) = op_keys d @ [(objectId b, k)]"
  by (simp add: op_keys_def insert_op_boardops)

lemma countOps_op_keys: "countOps d b = length (filter (\<lambda>p. fst p = b) (op_keys d))"
  by (simp add: countOps_def op_keys_def filter_map comp_def)

lemma ops_loop_fresh:
  assumes "\<forall>i. \<not> create_fails e i"
    and "\<forall>w \<in> set ws. client_key w \<noteq> None"
    and "distinct (map client_key ws)"
    and "\<forall>w \<in> set ws. \<forall>k. client_key w = Some k \<longrightarrow> (objectId b, k) \<notin> set (op_keys d)"
  shows "\<exists>d'. ops_loop e b a i ws d = Inr d' \<and>
           op_keys d' = op_keys d @ map (\<lambda>w. (objectId b, the (client_key w))) ws \<and>
           snapshots d' = snapshots d \<and> boards d' = boards d"
  using assms(2,3,4)
proof (induction ws arbitrary: i d)
  case Nil
  then show ?case by simp
next
  case (Cons w ws)
  from Cons.prems(1) obtain k where k: "client_key w = Some k" by auto
  with Cons.prems(3) have nf: "findOne_op d (objectId b) k = None"
    by (simp add: findOne_op_None_iff)
  define d1 where "d1 = insert_op b a k w d"
  have step: "ops_loop e b a i (w # ws) d = ops_loop e b a (Suc i) ws d1"
    using k nf assms(1) by (simp add: ops_loop_Cons resolve_client_key d1_def del: ops_loop.simps)
  have keys1: "op_keys d1 = op_keys d @ [(objectId b, k)]"
    by (simp add: d1_def op_keys_insert_op)
  have fresh1: "\<forall>w' \<in> set ws. \<forall>k'. client_key w' = Some k' \<longrightarrow> (objectId b, k') \<notin> set (op_keys d1)"
  proof (intro ballI allI impI)
    fix w' k' assume w': "w' \<in> set ws" and k': "client_key w' = Some k'"
    from Cons.prems(2) have "client_key w \<notin> client_key ` set ws" by simp
    with w' have "client_key w' \<noteq> client_key w" by (metis imageI)
    with k k' have "k' \<noteq> k" by auto
    moreover from Cons.prems(3) w' k' have "(objectId b, k') \<notin> set (op_keys d)" by auto
    ultimately show "(objectId b, k') \<notin> set (op_keys d1)" by (simp add: keys1)
  qed
  from Cons.IH[OF _ _ fresh1, of "Suc i"] Cons.prems(1,2)
  obtain d' where "ops_loop e b a (Suc i) ws d1 = Inr d'"
    and "op_keys d' = op_keys d1 @ map (\<lambda>w. (objectId b, the (client_key w))) ws"
    and "snapshots d' = snapshots d1" and "boards d' = boards d1"
    by auto
  then show ?case
    using step keys1 k by (simp add: d1_def insert_op_rest)
qed

lemma ops_loop_rest:
  assumes "ops_loop e b a i ws d = Inr d'"
  shows "snapshots d' = snapshots d \<and> boards d' = boards d \<and> users d' = users d"
  by (rule ops_loop_preserves[OF assms,
        where P = "\<lambda>x. snapshots x = snapshots d \<and> boards x = boards d \<and> users x = users d"])
     (simp_all add: insert_op_rest)

lemma countOps_checkpoint: "countOps (checkpoint e b d) b' = countOps d b'"
  by (simp add: countOps_def checkpoint_rest)

lemma board_ops_snapshots:
  assumes "board_ops e sock p s = (Ack_ok, s')"
    and "nonempty (sock_boardId sock) = Some b"
  shows "snapshots (sdb s') =
     (if countOps (sdb s') (objectId b) mod 200 = 0 then
        (case boards (sdb s) (objectId b) of
           None \<Rightarrow> snapshots (sdb s)
         | Some brd \<Rightarrow> snapshots (sdb s) @
             [\<lparr>bs_boardId = objectId b, bs_version = countSnapshots (sdb s) (objectId b) + 1,
               bs_tldraw = b_tldraw brd, bs_checksum = hashObj e (b_tldraw brd)\<rparr>])
      else snapshots (sdb s))"
proof -
  from assms(1) obtain b0 dl where b0: "nonempty (sock_boardId sock) = Some b0"
    and loop: "ops_loop e b0 (sock_userId sock) 0 (p_ops p) (sdb s) = Inr dl"
    and s': "sdb s' = checkpoint e b0 dl"
    by (rule board_ops_ok)
  from b0 assms(2) have [simp]: "b0 = b" by simp
  from ops_loop_rest[OF loop] have r: "snapshots dl = snapshots (sdb s)" "boards dl = boards (sdb s)"
    by simp_all
  have cs: "countSnapshots dl (objectId b) = countSnapshots (sdb s) (objectId b)"
    by (simp add: countSnapshots_def r)
  have "countOps (sdb s') (objectId b) = countOps dl (objectId b)"
    by (simp add: s' countOps_checkpoint)
  then show ?thesis
    by (simp add: s' checkpoint_def r cs split: option.splits)
qed

text \<open>
  Claim C4 (checkpoint cadence). The handler evaluates the trigger at the end of
  every transaction, on the count taken after the batch's inserts. Whatever the
  state before and whatever the batch, so however the operations were grouped into
  submissions: when a \<^verbatim>\<open>board:ops\<close> submission is acknowledged with \<^verbatim>\<open>ok\<close> and the
  board then has exactly 200 operation records, one new snapshot record has been
  written for the board, with version equal to the number of the board's snapshots
  before plus one, holding the board's cached document and its checksum. (The board
  record is there: the socket joined it and the server never deletes a board.) The
  second part says when a submission writes a snapshot at all: exactly when the
  count after its inserts is a multiple of 200.
\<close>

theorem checkpoint_per_batch:
  assumes "board_ops e sock p s = (Ack_ok, s')"
    and "nonempty (sock_boardId sock) = Some b"
  shows "(countOps (sdb s') (objectId b) = 200 \<and> boards (sdb s) (objectId b) = Some brd \<longrightarrow>
            snapshots (sdb s') = snapshots (sdb s) @
              [\<lparr>bs_boardId = objectId b, bs_version = countSnapshots (sdb s) (objectId b) + 1,
                bs_tldraw = b_tldraw brd, bs_checksum = hashObj e (b_tldraw brd)\<rparr>] \<and>
            countSnapshots (sdb s') (objectId b) = countSnapshots (sdb s) (objectId b) + 1) \<and>
         snapshots (sdb s') =
           (if countOps (sdb s') (objectId b) mod 200 = 0 then
              (case boards (sdb s) (objectId b) of
                 None \<Rightarrow> snapshots (sdb s)
               | Some brd \<Rightarrow> snapshots (sdb s) @
                   [\<lparr>bs_boardId = objectId b, bs_version = countSnapshots (sdb s) (objectId b) + 1,
                     bs_tldraw = b_tldraw brd, bs_checksum = hashObj e (b_tldraw brd)\<rparr>])
            else snapshots (sdb s))"
proof -
  note snap = board_ops_snapshots[OF assms]
  have "countOps (sdb s') (objectId b) = 200 \<and> boards (sdb s) (objectId b) = Some brd \<longrightarrow>
            snapshots (sdb s') = snapshots (sdb s) @
              [\<lparr>bs_boardId = objectId b, bs_version = countSnapshots (sdb s) (objectId b) + 1,
                bs_tldraw = b_tldraw brd, bs_checksum = hashObj e (b_tldraw brd)\<rparr>] \<and>
            countSnapshots (sdb s') (objectId b) = countSnapshots (sdb s) (objectId b) + 1"
    by (simp add: snap countSnapshots_def)
  with snap show ?thesis by blast
qed

lemma key_of_inj: "key_of i = key_of j \<longleftrightarrow> i = j"
proof
  assume "key_of i = key_of j"
  then have "length (key_of i) = length (key_of j)" by simp
  then show "i = j" by (simp add: key_of_def)
qed simp

lemma client_key_numbered: "client_key (numbered i) = Some (key_of i)"
  by (simp add: numbered_def keyed_def key_of_def nonempty_def)

lemma numbered_batch:
  assumes joined: "nonempty (sock_boardId sock) = Some b"
    and role: "sock_role sock \<in> set [''owner'', ''editor'']"
    and nofail: "\<forall>i. \<not> create_fails e i" and commit: "\<not> commit_fails e"
    and before: "op_keys (sdb s) = map (\<lambda>i. (objectId b, key_of i)) [0..<m]"
    and mn: "m \<le> n"
  shows "fst (board_ops e sock (batch_of m n) s) = Ack_ok \<and>
         op_keys (sdb (snd (board_ops e sock (batch_of m n) s))) = map (\<lambda>i. (objectId b, key_of i)) [0..<n] \<and>
         countOps (sdb (snd (board_ops e sock (batch_of m n) s))) (objectId b) = n \<and>
         boards (sdb (snd (board_ops e sock (batch_of m n) s))) = boards (sdb s) \<and>
         (n mod 200 \<noteq> 0 \<longrightarrow>
            snapshots (sdb (snd (board_ops e sock (batch_of m n) s))) = snapshots (sdb s))"
proof -
  let ?ws = "map numbered [m..<n]"
  have k: "\<forall>w \<in> set ?ws. client_key w \<noteq> None"
    by (auto simp: client_key_numbered)
  have e: "map client_key ?ws = map (\<lambda>i. Some (key_of i)) [m..<n]"
    by (simp add: client_key_numbered comp_def)
  have dist: "distinct (map client_key ?ws)"
    unfolding e by (simp add: distinct_map inj_on_def key_of_inj)
  have fresh: "\<forall>w \<in> set ?ws. \<forall>k. client_key w = Some k \<longrightarrow> (objectId b, k) \<notin> set (op_keys (sdb s))"
    by (auto simp: client_key_numbered before key_of_inj)
  from ops_loop_fresh[OF nofail k dist fresh, of "sock_userId sock" 0]
  obtain dl where loop: "ops_loop e b (sock_userId sock) 0 ?ws (sdb s) = Inr dl"
    and keys: "op_keys dl = op_keys (sdb s) @ map (\<lambda>w. (objectId b, the (client_key w))) ?ws"
    and rest: "snapshots dl = snapshots (sdb s)" "boards dl = boards (sdb s)"
    by blast
  have keys': "op_keys dl = map (\<lambda>i. (objectId b, key_of i)) [0..<n]"
  proof -
    have "op_keys dl = map (\<lambda>i. (objectId b, key_of i)) ([0..<m] @ [m..<n])"
      by (simp add: keys before client_key_numbered comp_def)
    also have "[0..<m] @ [m..<n] = [0..<n]"
      using mn by (metis le_add_diff_inverse upt_add_eq_append zero_le)
    finally show ?thesis .
  qed
  have cnt: "countOps dl (objectId b) = n"
    by (simp add: countOps_op_keys keys' filter_map comp_def)
  have db: "sdb (snd (board_ops e sock (batch_of m n) s)) = checkpoint e b dl"
    and ok: "fst (board_ops e sock (batch_of m n) s) = Ack_ok"
    using joined role commit loop
    by (simp_all add: board_ops_cases txn_body_def batch_of_def Let_def)
  have "op_keys (checkpoint e b dl) = op_keys dl"
    by (simp add: op_keys_def checkpoint_rest)
  moreover have "n mod 200 \<noteq> 0 \<longrightarrow> snapshots (checkpoint e b dl) = snapshots (sdb s)"
    by (simp add: checkpoint_def cnt rest)
  ultimately show ?thesis
    by (simp add: db ok keys' countOps_checkpoint cnt checkpoint_rest rest)
qed

theorem checkpoint_per_batch_witness:
  "fst (board_ops demo_env demo_sock (batch_of 0 200) demo_server) = Ack_ok \<and>
   countOps (sdb (snd (board_ops demo_env demo_sock (batch_of 0 200) demo_server))) ''b1'' = 200 \<and>
   snapshots (sdb (snd (board_ops demo_env demo_sock (batch_of 0 200) demo_server)))
     = [\<lparr>bs_boardId = ''b1'', bs_version = 1, bs_tldraw = None, bs_checksum = ''h0''\<rparr>] \<and>
   fst (board_ops demo_env demo_sock (batch_of 0 150) demo_server) = Ack_ok \<and>
   snapshots (sdb (snd (board_ops demo_env demo_sock (batch_of 0 150) demo_server))) = [] \<and>
   fst (board_ops demo_env demo_sock (batch_of 150 200)
          (snd (board_ops demo_env demo_sock (batch_of 0 150) demo_server))) = Ack_ok \<and>
   countOps (sdb (snd (board_ops demo_env demo_sock (batch_of 150 200)
          (snd (board_ops demo_env demo_sock (batch_of 0 150) demo_server))))) ''b1'' = 200 \<and>
   snapshots (sdb (snd (board_ops demo_env demo_sock (batch_of 150 200)
          (snd (board_ops demo_env demo_sock (batch_of 0 150) demo_server)))))
     = [\<lparr>bs_boardId = ''b1'', bs_version = 1, bs_tldraw = None, bs_checksum = ''h0''\<rparr>]"
proof -
  have j: "nonempty (sock_boardId demo_sock) = Some ''b1''"
    and r: "sock_role demo_sock \<in> set [''owner'', ''editor'']"
    and f: "\<forall>i. \<not> create_fails demo_env i" and c: "\<not> commit_fails demo_env"
    and k: "op_keys (sdb demo_server) = map (\<lambda>i. (objectId ''b1'', key_of i)) [0..<0]"
    by (simp_all add: demo_defs nonempty_def op_keys_def)
  have v: "boards (sdb demo_server) ''b1'' = Some demo_board" "snapshots (sdb demo_server) = []"
    "b_tldraw demo_board = None" "hashObj demo_env None = ''h0''"
    by (simp_all add: demo_defs)
  let ?t = "snd (board_ops demo_env demo_sock (batch_of 0 200) demo_server)"
  from numbered_batch[OF j r f c k, of 200]
  have ok: "fst (board_ops demo_env demo_sock (batch_of 0 200) demo_server) = Ack_ok"
    and n: "countOps (sdb ?t) (objectId ''b1'') = 200"
    by simp_all
  from ok have eq: "board_ops demo_env demo_sock (batch_of 0 200) demo_server = (Ack_ok, ?t)"
    by (simp add: prod_eq_iff)
  from checkpoint_per_batch[OF eq j, of demo_board] n v
  have one: "snapshots (sdb ?t)
     = [\<lparr>bs_boardId = ''b1'', bs_version = 1, bs_tldraw = None, bs_checksum = ''h0''\<rparr>]"
    by (simp add: objectId_b1 countSnapshots_def)
  let ?s1 = "snd (board_ops demo_env demo_sock (batch_of 0 150) demo_server)"
  let ?s2 = "snd (board_ops demo_env demo_sock (batch_of 150 200) ?s1)"
  from numbered_batch[OF j r f c k, of 150] v
  have a1: "fst (board_ops demo_env demo_sock (batch_of 0 150) demo_server) = Ack_ok"
    and a2: "op_keys (sdb ?s1) = map (\<lambda>i. (objectId ''b1'', key_of i)) [0..<150]"
    and a3: "boards (sdb ?s1) ''b1'' = Some demo_board"
    and a4: "snapshots (sdb ?s1) = []"
    by simp_all
  from numbered_batch[OF j r f c a2, of 200]
  have b1: "fst (board_ops demo_env demo_sock (batch_of 150 200) ?s1) = Ack_ok"
    and b2: "countOps (sdb ?s2) (objectId ''b1'') = 200"
    by simp_all
  from b1 have eq2: "board_ops demo_env demo_sock (batch_of 150 200) ?s1 = (Ack_ok, ?s2)"
    by (simp add: prod_eq_iff)
  from checkpoint_per_batch[OF eq2 j, of demo_board] b2 a3 a4 v(3,4)
  have two: "snapshots (sdb ?s2)
     = [\<lparr>bs_boardId = ''b1'', bs_version = 1, bs_tldraw = None, bs_checksum = ''h0''\<rparr>]"
    by (simp add: objectId_b1 countSnapshots_def)
  from ok n one a1 a4 b1 b2 two show ?thesis
    by (simp add: objectId_b1)
qed

text \<open>
  The count the trigger sees is the count at the end of a transaction. After a batch
  of 199 distinct operations and a batch of 2 more, both acknowledged, the board has
  201 operation records; no acknowledged submission left it with exactly 200, and
  there is no snapshot.
\<close>

lemma batch_across_200_no_snapshot:
  "fst (board_ops demo_env demo_sock (batch_of 0 199) demo_server) = Ack_ok \<and>
   countOps (sdb (snd (board_ops demo_env demo_sock (batch_of 0 199) demo_server))) ''b1'' = 199 \<and>
   snapshots (sdb (snd (board_ops demo_env demo_sock (batch_of 0 199) demo_server))) = [] \<and>
   fst (board_ops demo_env demo_sock (batch_of 199 201)
          (snd (board_ops demo_env demo_sock (batch_of 0 199) demo_server))) = Ack_ok \<and>
   countOps (sdb (snd (board_ops demo_env demo_sock (batch_of 199 201)
          (snd (board_ops demo_env demo_sock (batch_of 0 199) demo_server))))) ''b1'' = 201 \<and>
   snapshots (sdb (snd (board_ops demo_env demo_sock (batch_of 199 201)
          (snd (board_ops demo_env demo_sock (batch_of 0 199) demo_server))))) = []"
proof -
  have j: "nonempty (sock_boardId demo_sock) = Some ''b1''"
    and r: "sock_role demo_sock \<in> set [''owner'', ''editor'']"
    and f: "\<forall>i. \<not> create_fails demo_env i" and c: "\<not> commit_fails demo_env"
    and k: "op_keys (sdb demo_server) = map (\<lambda>i. (objectId ''b1'', key_of i)) [0..<0]"
    and s0: "snapshots (sdb demo_server) = []"
    by (simp_all add: demo_defs nonempty_def op_keys_def)
  let ?s1 = "snd (board_ops demo_env demo_sock (batch_of 0 199) demo_server)"
  from numbered_batch[OF j r f c k, of 199] s0
  have a1: "fst (board_ops demo_env demo_sock (batch_of 0 199) demo_server) = Ack_ok"
    and a2: "op_keys (sdb ?s1) = map (\<lambda>i. (objectId ''b1'', key_of i)) [0..<199]"
    and a3: "countOps (sdb ?s1) ''b1'' = 199"
    and a4: "snapshots (sdb ?s1) = []"
    by (simp_all add: objectId_b1)
  from numbered_batch[OF j r f c a2, of 201] a4
  have b1: "fst (board_ops demo_env demo_sock (batch_of 199 201) ?s1) = Ack_ok"
    and b3: "countOps (sdb (snd (board_ops demo_env demo_sock (batch_of 199 201) ?s1))) ''b1'' = 201"
    and b4: "snapshots (sdb (snd (board_ops demo_env demo_sock (batch_of 199 201) ?s1))) = []"
    by (simp_all add: objectId_b1)
  from a1 a3 a4 b1 b3 b4 show ?thesis by simp
qed

subsection \<open>Monotonic sequence\<close>

lemma counter_key_inj: "counter_key b = counter_key b' \<longleftrightarrow> b = b'"
  by (simp add: counter_key_def)




subsection \<open>Sequence order under the restore tool\<close>

lemma board_records_append:
  "board_records (d\<lparr>boardops := boardops d @ xs\<rparr>) b
     = board_records d b @ filter (\<lambda>r. bo_boardId r = b) xs"
  by (simp add: board_records_def)

lemma board_records_cong: "boardops d = boardops d' \<Longrightarrow> board_records d b = board_records d' b"
  by (simp add: board_records_def)

lemma restore_ops_other_board:
  assumes "restore_ops e b i its d mx = (d', mx')" and "b' \<noteq> b"
  shows "board_records d' b' = board_records d b'"
  using assms(1)
proof (induction its arbitrary: i d mx)
  case Nil
  then show ?case by simp
next
  case (Cons x xs)
  show ?case
  proof (cases "findOne_restore d b (x_opId x)")
    case (Some ex)
    with Cons.prems have "restore_ops e b (Suc i) xs d (max mx (seq_or0 (bo_seq ex))) = (d', mx')" by simp
    from Cons.IH[OF this] show ?thesis .
  next
    case None
    show ?thesis
    proof (cases "create_fails e i")
      case True
      with None Cons.prems have "restore_ops e b (Suc i) xs d mx = (d', mx')" by simp
      from Cons.IH[OF this] show ?thesis .
    next
      case False
      with None Cons.prems have "restore_ops e b (Suc i) xs (d\<lparr>boardops := boardops d @ [restored_op e b i x]\<rparr>)
         (max mx (seq_or0 (bo_seq (restored_op e b i x)))) = (d', mx')" by (simp add: Let_def)
      from Cons.IH[OF this] assms(2) show ?thesis
        by (simp add: board_records_append restored_op_def)
    qed
  qed
qed

lemma restore_ops_sorted:
  assumes "restore_ops e b i its d mx = (d', mx')"
    and "sorted_wrt (<) (map x_seq its)"
    and "\<forall>it \<in> set its. findOne_restore d b (x_opId it) = None \<longrightarrow>
           (\<forall>r \<in> set (board_records d b). bo_seq r < x_seq it)"
    and "sorted_wrt (<) (map bo_seq (board_records d b))"
  shows "sorted_wrt (<) (map bo_seq (board_records d' b))"
  using assms
proof (induction its arbitrary: i d mx)
  case Nil
  then show ?case by simp
next
  case (Cons x xs)
  from Cons.prems(2) have sxs: "sorted_wrt (<) (map x_seq xs)"
    and xlt: "\<And>it. it \<in> set xs \<Longrightarrow> x_seq x < x_seq it" by auto
  from Cons.prems(3) have tail: "\<forall>it \<in> set xs. findOne_restore d b (x_opId it) = None \<longrightarrow>
           (\<forall>r \<in> set (board_records d b). bo_seq r < x_seq it)" by simp
  show ?case
  proof (cases "findOne_restore d b (x_opId x)")
    case (Some ex)
    with Cons.prems have "restore_ops e b (Suc i) xs d (max mx (seq_or0 (bo_seq ex))) = (d', mx')" by simp
    from Cons.IH[OF this sxs tail Cons.prems(4)] show ?thesis .
  next
    case None
    show ?thesis
    proof (cases "create_fails e i")
      case True
      with None Cons.prems have "restore_ops e b (Suc i) xs d mx = (d', mx')" by simp
      from Cons.IH[OF this sxs tail Cons.prems(4)] show ?thesis .
    next
      case False
      define c where "c = restored_op e b i x"
      define d1 where "d1 = d\<lparr>boardops := boardops d @ [c]\<rparr>"
      from False None Cons.prems(1)
      have rec: "restore_ops e b (Suc i) xs d1 (max mx (seq_or0 (bo_seq c))) = (d', mx')"
        by (simp add: Let_def d1_def c_def)
      have cb: "bo_boardId c = b" and cs: "bo_seq c = x_seq x"
        by (simp_all add: c_def restored_op_def)
      have recs1: "board_records d1 b = board_records d b @ [c]"
        by (simp add: d1_def board_records_append cb)
      from Cons.prems(3) None have old_lt: "\<And>r. r \<in> set (board_records d b) \<Longrightarrow> bo_seq r < x_seq x"
        by simp
      have sorted1: "sorted_wrt (<) (map bo_seq (board_records d1 b))"
        using Cons.prems(4) old_lt by (simp add: recs1 sorted_wrt_append cs)
      have tail1: "\<forall>it \<in> set xs. findOne_restore d1 b (x_opId it) = None \<longrightarrow>
           (\<forall>r \<in> set (board_records d1 b). bo_seq r < x_seq it)"
      proof (intro ballI impI)
        fix it r assume it: "it \<in> set xs" and nf: "findOne_restore d1 b (x_opId it) = None"
          and r: "r \<in> set (board_records d1 b)"
        have "findOne_restore d b (x_opId it) = None"
        proof (rule ccontr)
          assume "findOne_restore d b (x_opId it) \<noteq> None"
          then obtain y where "findOne_restore d b (x_opId it) = Some y" by blast
          from findOne_restore_mono[OF this, of c] nf show False by (simp add: d1_def)
        qed
        with tail it have "\<forall>r \<in> set (board_records d b). bo_seq r < x_seq it" by blast
        moreover have "bo_seq c < x_seq it" using xlt[OF it] by (simp add: cs)
        ultimately show "bo_seq r < x_seq it" using r by (auto simp: recs1)
      qed
      from Cons.IH[OF rec sxs tail1 sorted1] show ?thesis .
    qed
  qed
qed

lemma restore_boardops: "boardops (restore e a d) = boardops d @ inserted_records e a d"
proof -
  define b where "b = fst (restore_board e a d)"
  define d2 where "d2 = restore_snapshot e b a (snd (restore_board e a d))"
  obtain d3 mx where loop: "restore_ops e b 0 (a_ops a) d2 0 = (d3, mx)"
    by (cases "restore_ops e b 0 (a_ops a) d2 0")
  have bo2: "boardops d2 = boardops d"
    by (simp add: d2_def restore_snapshot_rest restore_board_rest)
  have r: "restore e a d = reconcile_counter b mx d3"
    using loop by (simp add: restore_unfold d2_def b_def)
  from restore_ops_max[OF loop] obtain new where "boardops d3 = boardops d2 @ new" by blast
  then have "boardops (restore e a d) = boardops d @ new"
    by (simp add: r reconcile_counter_rest bo2)
  then show ?thesis by (simp add: inserted_records_def)
qed

lemma seq_le_SomeI: "seq_or0 x \<le> n \<Longrightarrow> x \<le> Some n"
  by (cases x) (simp_all add: seq_or0_def)

lemma seq_inv_restore:
  assumes inv: "seq_inv d b"
    and fl: "target_board e a d = b \<longrightarrow>
       sorted_wrt (<) (map x_seq (a_ops a)) \<and>
       (\<forall>it \<in> set (a_ops a). findOne_restore d b (x_opId it) = None \<longrightarrow>
          (\<forall>r \<in> set (board_records d b). bo_seq r < x_seq it))"
  shows "seq_inv (restore e a d) b"
proof -
  define t where "t = target_board e a d"
  define d2 where "d2 = restore_snapshot e t a (snd (restore_board e a d))"
  obtain d3 mx where loop: "restore_ops e t 0 (a_ops a) d2 0 = (d3, mx)"
    by (cases "restore_ops e t 0 (a_ops a) d2 0")
  have bo2: "boardops d2 = boardops d"
    by (simp add: d2_def restore_snapshot_rest restore_board_rest)
  have r: "restore e a d = reconcile_counter t mx d3"
    using loop by (simp add: restore_unfold d2_def t_def target_board_def)
  have bo: "boardops (restore e a d) = boardops d3"
    by (simp add: r reconcile_counter_rest)
  from inv have s: "sorted_wrt (<) (map bo_seq (board_records d b))"
    and le: "\<And>x. x \<in> set (board_records d b) \<Longrightarrow> bo_seq x \<le> Some (counter_val d b)"
    by (auto simp: seq_inv_def)
  note rc = restore_counters[of e a d, folded t_def]
  show ?thesis
  proof (cases "t = b")
    case False
    from restore_ops_other_board[OF loop, of b] False
    have "board_records d3 b = board_records d2 b" by simp
    then have recs: "board_records (restore e a d) b = board_records d b"
      using board_records_cong[OF bo, of b] board_records_cong[OF bo2, of b] by simp
    have "counter_val (restore e a d) b = counter_val d b"
      using False by (simp add: counter_val_def rc counter_key_inj)
    with recs inv show ?thesis by (simp add: seq_inv_def)
  next
    case True
    with fl have fs: "sorted_wrt (<) (map x_seq (a_ops a))"
      and above: "\<forall>it \<in> set (a_ops a). findOne_restore d b (x_opId it) = None \<longrightarrow>
          (\<forall>r \<in> set (board_records d b). bo_seq r < x_seq it)"
      by (simp_all add: t_def)
    have feq: "findOne_restore d2 b k = findOne_restore d b k" for k
      by (rule findOne_restore_cong[OF bo2])
    have req: "board_records d2 b = board_records d b"
      by (rule board_records_cong[OF bo2])
    have "sorted_wrt (<) (map bo_seq (board_records d3 b))"
      by (rule restore_ops_sorted[OF loop[unfolded True] fs])
         (simp_all add: feq req above s)
    then have sorted': "sorted_wrt (<) (map bo_seq (board_records (restore e a d) b))"
      using board_records_cong[OF bo, of b] by simp
    let ?M = "max_seq (restored_seqs e a d)"
    have cv: "counter_val d b \<le> counter_val (restore e a d) b" "?M \<le> counter_val (restore e a d) b"
      using True by (simp_all add: counter_val_def rc split: option.splits)
    have bound: "bo_seq x \<le> Some (counter_val (restore e a d) b)"
      if "x \<in> set (board_records (restore e a d) b)" for x
    proof -
      from that have "x \<in> set (boardops d) \<and> bo_boardId x = b \<or> x \<in> set (inserted_records e a d)"
        by (auto simp: board_records_def restore_boardops)
      then show ?thesis
      proof
        assume "x \<in> set (boardops d) \<and> bo_boardId x = b"
        then have "x \<in> set (board_records d b)" by (simp add: board_records_def)
        from le[OF this] cv(1) show ?thesis
          by (meson less_eq_option_Some order_trans)
      next
        assume "x \<in> set (inserted_records e a d)"
        then have "seq_or0 (bo_seq x) \<in> set (restored_seqs e a d)"
          by (simp add: restored_seqs_def)
        then have "seq_or0 (bo_seq x) \<le> ?M" by (simp add: max_seq_Max)
        with cv(2) have "seq_or0 (bo_seq x) \<le> counter_val (restore e a d) b" by simp
        then show ?thesis by (rule seq_le_SomeI)
      qed
    qed
    from sorted' bound show ?thesis by (simp add: seq_inv_def)
  qed
qed

text \<open>The export route lists a board's operations in increasing sequence order.\<close>

lemma export_sorted:
  assumes "seq_inv d b" and "export_board e b me d = Inr a"
  shows "sorted_wrt (<) (map x_seq (a_ops a))"
proof -
  from assms(2) have ops: "a_ops a = map export_op (sort_key bo_seq (board_records d b))"
    by (auto simp: export_board_def board_records_def Let_def split: option.splits if_splits)
  from assms(1) have s: "sorted_wrt (<) (map bo_seq (board_records d b))"
    by (simp add: seq_inv_def)
  then have "sort_key bo_seq (board_records d b) = board_records d b"
    by (intro sort_key_id_if_sorted strict_sorted_imp_sorted)
  then have "map x_seq (a_ops a) = map bo_seq (board_records d b)"
    by (simp add: ops export_op_def comp_def)
  with s show ?thesis by simp
qed

lemma seq_inv_no_records: "board_records d b = [] \<Longrightarrow> seq_inv d b"
  by (simp add: seq_inv_def)

text \<open>
  A file written by the export route and restored into an empty database gives a
  log in sequence order, whatever board the file is of.
\<close>

lemma export_restore_ordered:
  assumes "seq_inv d b" and "export_board e b me d = Inr a"
  shows "seq_inv (restore e' a empty_db) b'"
proof -
  have r: "board_records empty_db b' = []"
    by (simp add: board_records_def empty_db_def)
  show ?thesis
    by (rule seq_inv_restore[OF seq_inv_no_records[OF r]])
       (simp add: r export_sorted[OF assms])
qed




text \<open>
  The handler stores a record under the board's id as the database casts it, and
  takes the sequence number from the counter named by the id as the socket sent
  it on joining. A socket that joined board \<open>b1\<close> as \<open>B1\<close> therefore numbers from a
  counter of its own: after the batch \<open>x1x2\<close> from the first socket, its operation
  \<open>z1\<close> is stored on the same board with sequence number 1.
\<close>

lemma two_spellings_one_board:
  "room_join ''B1'' None demo_sock demo_db = (Ack_ok, upper_sock) \<and>
   fst (board_ops demo_env upper_sock z1 (snd (board_ops demo_env demo_sock x1x2 demo_server)))
     = Ack_ok \<and>
   map bo_seq (board_records
      (sdb (snd (board_ops demo_env upper_sock z1
                  (snd (board_ops demo_env demo_sock x1x2 demo_server))))) ''b1'')
     = [Some 1, Some 2, Some 1]"
proof -
  have j: "room_join ''B1'' None demo_sock demo_db = (Ack_ok, upper_sock)"
    by (simp add: room_join_def upper_sock_def demo_defs nonempty_def objectId_def toLowerCase_def
        lower_char_def)
  have a: "fst (board_ops demo_env upper_sock z1 (snd (board_ops demo_env demo_sock x1x2 demo_server)))
     = Ack_ok"
    by (simp add: upper_sock_def z1_def demo_defs model_defs)
  have r: "map bo_seq (board_records
      (sdb (snd (board_ops demo_env upper_sock z1
                  (snd (board_ops demo_env demo_sock x1x2 demo_server))))) ''b1'')
     = [Some 1, Some 2, Some 1]"
    by (simp add: board_records_def upper_sock_def z1_def demo_defs model_defs)
  from j a r show ?thesis by simp
qed

end
